theory Spec2Isabelle
  imports Complex_Main
begin

section \<open>Field classification: \<open>predicate_introspection\<close> (struct_reflection.hpp)\<close>

text \<open>
  A record type \<open>T\<close> is the list of its field types in declaration order
  (\<open>as_tuple<T>\<close>); a capability predicate \<open>P\<close> is a boolean function on field
  types. Everything in \<open>predicate_introspection<T, P>\<close> is evaluated by the compiler:
  a \<open>static_assert\<close> that fails, or a constant array read out of bounds, rejects the
  program, which the model returns as an error value.
\<close>

datatype static_error = Static_assert_failed | Constant_index_out_of_bounds

text \<open>
  \<open>index_of_element<N>(std::integer_sequence<T, Idx...>)\<close>: the lambda runs over the
  sequence counting positions in \<open>k\<close>, returns \<open>k\<close> at the first element equal to
  \<open>N\<close> and \<open>-1\<close> after the loop; the two \<open>static_assert\<close>s demand a non-empty
  sequence and a non-negative result.
\<close>

fun index_of_element_loop :: "int \<Rightarrow> int list \<Rightarrow> int \<Rightarrow> int" where
  "index_of_element_loop N [] k = - 1"
| "index_of_element_loop N (i # Idx) k =
     (if i = N then k else index_of_element_loop N Idx (k + 1))"

definition index_of_element :: "int \<Rightarrow> int list \<Rightarrow> static_error + int" where
  "index_of_element N Idx =
     (if \<not> length Idx > 0 then Inl Static_assert_failed
      else let ret = index_of_element_loop N Idx 0
           in if \<not> ret \<ge> 0 then Inl Static_assert_failed else Inr ret)"

text \<open>
  Modelled from the spec: \<open>typed_index_sequence_t\<close>, \<open>numbered_index_sequence_t\<close> and
  \<open>integer_sequence_to_array\<close> (avnd/common/index_sequence.hpp, not among the sources)
  and \<open>boost::mp11::mp_copy_if\<close>. The spec's classifier evaluates the predicate at each
  field position \<open>0..count\<close> and appends the positions that satisfy it, in order; the
  index map is the fixed array of these positions. So \<open>indices\<close> is the list of all
  positions, \<open>mp_copy_if\<close> is \<open>filter\<close>, and the conversions between type lists, integer
  sequences and arrays keep the elements and their order.
\<close>

definition indices :: "'f list \<Rightarrow> nat list" where
  "indices T = [0 ..< length T]"

definition matches_predicate_i :: "'f list \<Rightarrow> ('f \<Rightarrow> bool) \<Rightarrow> nat \<Rightarrow> bool" where
  "matches_predicate_i T P IntT = P (T ! IntT)"

definition indices_n :: "'f list \<Rightarrow> ('f \<Rightarrow> bool) \<Rightarrow> int list" where
  "indices_n T P = map int (filter (matches_predicate_i T P) (indices T))"

definition fields_n :: "'f list \<Rightarrow> ('f \<Rightarrow> bool) \<Rightarrow> 'f list" where
  "fields_n T P = filter P T"

definition index_map :: "'f list \<Rightarrow> ('f \<Rightarrow> bool) \<Rightarrow> int list" where
  "index_map T P = indices_n T P"

definition size_n :: "'f list \<Rightarrow> ('f \<Rightarrow> bool) \<Rightarrow> nat" where
  "size_n T P = length (indices_n T P)"

text \<open>\<open>map<Idx>()\<close> reads \<open>index_map[Idx]\<close>; \<open>unmap<Idx>()\<close> searches \<open>indices_n\<close>.\<close>

definition map_index :: "'f list \<Rightarrow> ('f \<Rightarrow> bool) \<Rightarrow> nat \<Rightarrow> static_error + int" where
  "map_index T P Idx =
     (if Idx < length (index_map T P) then Inr (index_map T P ! Idx)
      else Inl Constant_index_out_of_bounds)"

definition unmap_index :: "'f list \<Rightarrow> ('f \<Rightarrow> bool) \<Rightarrow> nat \<Rightarrow> static_error + int" where
  "unmap_index T P Idx = index_of_element (int Idx) (indices_n T P)"

text \<open>The composition \<open>unmap<map<i>()>()\<close>; the \<open>int\<close> that \<open>map\<close> returns becomes
  the \<open>std::size_t\<close> template argument of \<open>unmap\<close>.\<close>

definition unmap_of_map :: "'f list \<Rightarrow> ('f \<Rightarrow> bool) \<Rightarrow> nat \<Rightarrow> static_error + int" where
  "unmap_of_map T P i =
     (case map_index T P i of Inl e \<Rightarrow> Inl e | Inr m \<Rightarrow> unmap_index T P (nat m))"

section \<open>Message routing: \<open>pd::message_processor\<close> (pd/message_processor.hpp)\<close>

text \<open>
  A Pd message is a selector \<open>s\<close> (the name of a \<open>t_symbol\<close>) and \<open>argc\<close> atoms
  \<open>argv\<close>; the atom list stands for both, \<open>argc\<close> being its length. An atom carries its
  type tag \<open>a_type\<close> and the matching member of the union \<open>a_w\<close>. \<open>'f\<close> is \<open>t_float\<close>;
  the router only copies such values.
\<close>

datatype 'f t_atom = A_FLOAT 'f | A_SYMBOL string | A_OTHER

text \<open>
  A field of the \<open>inputs\<close> struct. The two \<open>requires\<close>-expressions of
  \<open>process_first_inlet_control\<close> ask whether \<open>first_inlet.value = 0.f\<close> and
  \<open>first_inlet.value = "string"\<close> are well-formed for the field's type: the field carries,
  for each, the assignment of its type when there is one (the conversion that the C++
  assignment performs), and \<open>None\<close> when the expression is ill-formed.
\<close>

record ('f, 'v) inlet =
  inlet_value :: 'v
  assign_float :: "('f \<Rightarrow> 'v) option"
  assign_symbol :: "(string \<Rightarrow> 'v) option"

text \<open>The author's object \<open>T\<close>: \<open>inputs\<close> is empty when \<open>avnd::has_inputs<T>\<close> is
  false (\<open>boost::pfr::get<0>\<close> of a struct without fields is rejected by the compiler).\<close>

record ('f, 'v, 's) object =
  inputs :: "('f, 'v) inlet list"
  outputs :: "'v list"
  members :: 's

text \<open>What the router did, in order: an observation log kept beside the state.\<close>

datatype 'f action =
    Handler_invoked string "'f t_atom list"
  | First_inlet_assigned
  | Processing_invoked
  | Outputs_committed
  | Generic_message string

record ('f, 'v, 's) message_processor =
  implementation :: "('f, 'v, 's) object"
  outlets :: "'v list list"
  performed :: "'f action list"

text \<open>
  What the type \<open>T\<close> declares: its message handlers by name, and its processing
  operation \<open>operator()\<close> when it has one.
\<close>

record ('f, 'v, 's) object_type =
  messages :: "(string \<times> ('f t_atom list \<Rightarrow> ('f, 'v, 's) object \<Rightarrow> ('f, 'v, 's) object)) list"
  call_operator :: "(('f, 'v, 's) object \<Rightarrow> ('f, 'v, 's) object) option"

datatype runtime_error = Read_past_end_of_arguments

text \<open>
  Modelled from the spec: \<open>messages<T>::process_messages\<close> (pd/messages.hpp, not among
  the sources). The spec's matched-message mode: when the event's name matches a handler
  the author declared for that name, the handler is invoked with the event's argument
  list and the call reports the match; otherwise nothing is done and no match is
  reported.
\<close>

definition process_messages ::
  "('f, 'v, 's) object_type \<Rightarrow> ('f, 'v, 's) message_processor \<Rightarrow> string \<Rightarrow> 'f t_atom list
     \<Rightarrow> bool \<times> ('f, 'v, 's) message_processor" where
  "process_messages T st s argv =
     (case map_of (messages T) s of
        None \<Rightarrow> (False, st)
      | Some handler \<Rightarrow>
          (True, st\<lparr>implementation := handler argv (implementation st),
                    performed := performed st @ [Handler_invoked s argv]\<rparr>))"

text \<open>
  Modelled from the spec: \<open>outputs<T>::commit\<close> (pd/outputs.hpp, not among the
  sources). Committing drains the values of the output fields to the host's output
  ports, in output-field declaration order.
\<close>

definition commit :: "('f, 'v, 's) message_processor \<Rightarrow> ('f, 'v, 's) message_processor" where
  "commit st = st\<lparr>outlets := outlets st @ [outputs (implementation st)],
                  performed := performed st @ [Outputs_committed]\<rparr>"

text \<open>
  Modelled from the spec: the macro \<open>if_possible\<close> (avnd/common, not among the sources),
  here in \<open>if_possible(implementation())\<close>: the processing operation is invoked if the
  record defines one.
\<close>

definition if_possible_implementation ::
  "('f, 'v, 's) object_type \<Rightarrow> ('f, 'v, 's) message_processor \<Rightarrow> ('f, 'v, 's) message_processor" where
  "if_possible_implementation T st =
     (case call_operator T of
        None \<Rightarrow> st
      | Some f \<Rightarrow> st\<lparr>implementation := f (implementation st),
                      performed := performed st @ [Processing_invoked]\<rparr>)"

text \<open>
  \<open>process_generic_message(implementation, s)\<close> (pd/helpers.hpp, not among the sources)
  is a parameter \<open>generic\<close> of the router: any function of the object and the selector.
\<close>

definition process_generic_message ::
  "(('f, 'v, 's) object \<Rightarrow> string \<Rightarrow> ('f, 'v, 's) object)
     \<Rightarrow> ('f, 'v, 's) message_processor \<Rightarrow> string \<Rightarrow> ('f, 'v, 's) message_processor" where
  "process_generic_message generic st s =
     st\<lparr>implementation := generic (implementation st) s,
        performed := performed st @ [Generic_message s]\<rparr>"

text \<open>
  \<open>process_first_inlet_control\<close>: reads \<open>argv[0]\<close> (past the end when there is no
  argument) and switches on its type; the selector \<open>s\<close> is not used.
\<close>

definition set_first_inlet ::
  "'v \<Rightarrow> ('f, 'v, 's) message_processor \<Rightarrow> ('f, 'v, 's) message_processor" where
  "set_first_inlet v st =
     (case inputs (implementation st) of
        [] \<Rightarrow> st
      | first_inlet # rest \<Rightarrow>
          st\<lparr>implementation :=
                (implementation st)\<lparr>inputs := first_inlet\<lparr>inlet_value := v\<rparr> # rest\<rparr>,
             performed := performed st @ [First_inlet_assigned]\<rparr>)"

definition process_first_inlet_control ::
  "('f, 'v, 's) message_processor \<Rightarrow> string \<Rightarrow> 'f t_atom list
     \<Rightarrow> runtime_error + ('f, 'v, 's) message_processor" where
  "process_first_inlet_control st s argv =
     (case inputs (implementation st) of
        [] \<Rightarrow> Inr st
      | first_inlet # rest \<Rightarrow>
          (case argv of
             [] \<Rightarrow> Inl Read_past_end_of_arguments
           | A_FLOAT w_float # _ \<Rightarrow>
               (case assign_float first_inlet of
                  Some assign \<Rightarrow> Inr (set_first_inlet (assign w_float) st)
                | None \<Rightarrow> Inr st)
           | A_SYMBOL s_name # _ \<Rightarrow>
               (case assign_symbol first_inlet of
                  Some assign \<Rightarrow> Inr (set_first_inlet (assign s_name) st)
                | None \<Rightarrow> Inr st)
           | A_OTHER # _ \<Rightarrow> Inr st))"

definition s_bang :: string where
  "s_bang = ''bang''"

definition process ::
  "('f, 'v, 's) object_type \<Rightarrow> (('f, 'v, 's) object \<Rightarrow> string \<Rightarrow> ('f, 'v, 's) object)
     \<Rightarrow> ('f, 'v, 's) message_processor \<Rightarrow> string \<Rightarrow> 'f t_atom list
     \<Rightarrow> runtime_error + ('f, 'v, 's) message_processor" where
  "process T generic st s argv =
     (case process_messages T st s argv of
        (True, st') \<Rightarrow> Inr st'
      | (False, st') \<Rightarrow>
          (case argv of
             [] \<Rightarrow>
               if s = s_bang then Inr (commit (if_possible_implementation T st'))
               else Inr (process_generic_message generic st' s)
           | _ # _ \<Rightarrow>
               (case process_first_inlet_control st' s argv of
                  Inl e \<Rightarrow> Inl e
                | Inr st'' \<Rightarrow> Inr (commit (if_possible_implementation T st'')))))"

text \<open>
  An object for the concrete evaluations: a first inlet with a numeric value (it accepts
  a float and rejects a string), a second inlet with a string value, one output, a
  handler declared for the message \<open>reset\<close>, and a processing operation that copies the
  first inlet to the output and counts its invocations in \<open>members\<close>.
\<close>

datatype example_value = Number real | Text string

definition example_type :: "(real, example_value, nat) object_type" where
  "example_type =
     \<lparr>messages = [(''reset'', \<lambda>argv obj. obj\<lparr>members := 0\<rparr>)],
      call_operator =
        Some (\<lambda>obj. obj\<lparr>outputs := map inlet_value (take 1 (inputs obj)),
                           members := Suc (members obj)\<rparr>)\<rparr>"

definition example_processor :: "(real, example_value, nat) message_processor" where
  "example_processor =
     \<lparr>implementation =
        \<lparr>inputs = [\<lparr>inlet_value = Number 0, assign_float = Some Number, assign_symbol = None\<rparr>,
                   \<lparr>inlet_value = Text ''a'', assign_float = None, assign_symbol = Some Text\<rparr>],
         outputs = [Number 0],
         members = 5\<rparr>,
      outlets = [],
      performed = []\<rparr>"

definition example_generic :: "(real, example_value, nat) object \<Rightarrow> string \<Rightarrow> (real, example_value, nat) object" where
  "example_generic obj s = obj"

subsection \<open>The value types of a first inlet\<close>

text \<open>
  A \<open>std::integral\<close> type other than \<open>bool\<close> by its signedness and its width in bits,
  and the conversion of an integer to it, which keeps the value modulo \<open>2^width\<close>
  (\<open>int8_t\<close> is \<open>Signed 8\<close>, \<open>unsigned\<close> is \<open>Unsigned 32\<close>).
\<close>

datatype integral_type = Signed nat | Unsigned nat

fun narrow :: "integral_type \<Rightarrow> int \<Rightarrow> int" where
  "narrow (Unsigned w) v = v mod 2 ^ w"
| "narrow (Signed w) v = (v + 2 ^ (w - 1)) mod 2 ^ w - 2 ^ (w - 1)"









section \<open>Value marshalling: \<open>from_ossia_value\<close> (binding/ossia/port_run_preprocess.hpp)\<close>

text \<open>\<open>int\<close> is the integral type \<open>Signed 32\<close>.\<close>

definition cpp_int :: integral_type where
  "cpp_int = Signed 32"

text \<open>
  The destination \<open>dst\<close> of a conversion, by the shape of its type, which selects the
  overload: an aggregate, given by its fields (the unconstrained template, which counts
  them with \<open>boost::pfr::tuple_size_v\<close>), a \<open>std::integral\<close> type with its value, a
  \<open>std::floating_point\<close> type, a string-like type, or \<open>bool\<close> (the non-template
  overload, preferred to the templates). \<open>'f\<close> is the type of the floating-point values,
  which are only moved: a \<open>float\<close> is a value of every floating-point type.
\<close>

datatype 'f dst_value =
    Aggregate "'f list"
  | Integral integral_type int
  | Floating 'f
  | String_ish string
  | Boolean bool

text \<open>
  \<open>ossia::convert<T>\<close> belongs to the host library: the conversions of a host value
  \<open>'src\<close> are parameters of the model. \<open>ossia::convert<int>\<close> returns an \<open>int\<close>: what
  the parameter \<open>convert_int\<close> gives is read as one.
\<close>

record ('src, 'f) ossia_convert =
  convert_vec2f :: "'src \<Rightarrow> 'f \<times> 'f"
  convert_vec3f :: "'src \<Rightarrow> 'f \<times> 'f \<times> 'f"
  convert_vec4f :: "'src \<Rightarrow> 'f \<times> 'f \<times> 'f \<times> 'f"
  convert_int :: "'src \<Rightarrow> int"
  convert_float :: "'src \<Rightarrow> 'f"
  convert_string :: "'src \<Rightarrow> string"
  convert_bool :: "'src \<Rightarrow> bool"

text \<open>
  The overloads \<open>from_ossia_value(src, dst)\<close>; the result is the new \<open>dst\<close>. The
  template for aggregates branches on the number \<open>sz\<close> of fields: none (an impulse,
  nothing to do), 2, 3 or 4 (the components of the converted vector), and a failed
  \<open>static_assert\<close> for any other number. The integral overload assigns the \<open>int\<close> to
  a \<open>T&\<close>, which converts it to \<open>T\<close>.
\<close>

fun from_ossia_value ::
  "('src, 'f) ossia_convert \<Rightarrow> 'src \<Rightarrow> 'f dst_value \<Rightarrow> static_error + 'f dst_value" where
  "from_ossia_value cv src (Aggregate fs) =
     (let sz = length fs
      in if sz = 0 then Inr (Aggregate fs)
         else if sz = 2 then
           (case convert_vec2f cv src of (x, y) \<Rightarrow> Inr (Aggregate [x, y]))
         else if sz = 3 then
           (case convert_vec3f cv src of (x, y, z) \<Rightarrow> Inr (Aggregate [x, y, z]))
         else if sz = 4 then
           (case convert_vec4f cv src of (x, y, z, w) \<Rightarrow> Inr (Aggregate [x, y, z, w]))
         else Inl Static_assert_failed)"
| "from_ossia_value cv src (Integral T _) =
     Inr (Integral T (narrow T (narrow cpp_int (convert_int cv src))))"
| "from_ossia_value cv src (Floating _) = Inr (Floating (convert_float cv src))"
| "from_ossia_value cv src (String_ish _) = Inr (String_ish (convert_string cv src))"
| "from_ossia_value cv src (Boolean _) = Inr (Boolean (convert_bool cv src))"

text \<open>
  A parameter field \<open>ctrl\<close>: its \<open>value\<close> member, and what the concept
  \<open>enum_ish_parameter\<close> asks of its type (\<open>avnd::enum_parameter\<close>, \<open>avnd::has_range\<close> and
  whether \<open>avnd::get_range<Field>().values[0]\<close> is well-formed; the three are declared
  outside the sources).
\<close>

record 'f parameter =
  parameter_value :: "'f dst_value"
  enum_parameter :: bool
  has_range :: bool
  range_has_values :: bool

definition enum_ish_parameter :: "'f parameter \<Rightarrow> bool" where
  "enum_ish_parameter field = (enum_parameter field \<or> (has_range field \<and> range_has_values field))"

text \<open>
  The overloads \<open>from_ossia_value(field, src, dst)\<close>: the one constrained by
  \<open>enum_ish_parameter\<close> is the more specialised and has an empty body (\<open>// FIXME\<close>).
\<close>

definition from_ossia_value_field ::
  "('src, 'f) ossia_convert \<Rightarrow> 'f parameter \<Rightarrow> 'src \<Rightarrow> 'f dst_value
     \<Rightarrow> static_error + 'f dst_value" where
  "from_ossia_value_field cv field src dst =
     (if enum_ish_parameter field then Inr dst else from_ossia_value cv src dst)"

text \<open>
  \<open>process_before_run::init_value\<close> (for a parameter that is not a control): the last
  value that the inlet received, if any, is marshalled into \<open>ctrl.value\<close>.
\<close>

definition init_value ::
  "('src, 'f) ossia_convert \<Rightarrow> 'f parameter \<Rightarrow> 'src list \<Rightarrow> static_error + 'f parameter" where
  "init_value cv ctrl port_data =
     (if port_data \<noteq> [] then
        (case from_ossia_value_field cv ctrl (last port_data) (parameter_value ctrl) of
           Inl e \<Rightarrow> Inl e
         | Inr v \<Rightarrow> Inr (ctrl\<lparr>parameter_value := v\<rparr>))
      else Inr ctrl)"

text \<open>A host value and its conversions, for the concrete evaluations: the host value is a
  number, a vector is filled with it.\<close>

definition example_convert :: "(real, real) ossia_convert" where
  "example_convert =
     \<lparr>convert_vec2f = (\<lambda>v. (v, v)),
      convert_vec3f = (\<lambda>v. (v, v, v)),
      convert_vec4f = (\<lambda>v. (v, v, v, v)),
      convert_int = (\<lambda>v. \<lfloor>v\<rfloor>),
      convert_float = (\<lambda>v. v),
      convert_string = (\<lambda>v. if v = 0 then ''zero'' else ''nonzero''),
      convert_bool = (\<lambda>v. v \<noteq> 0)\<rparr>"

section \<open>Per-sample audio adapters: \<open>process_adapter\<close> (wrappers/input_introspection.hpp)\<close>

text \<open>
  A field of the \<open>inputs\<close> or \<open>outputs\<close> struct of an audio processor: either it has a
  \<open>sample\<close> member holding one sample of type \<open>FP\<close> (here \<open>'a\<close>; samples are only
  copied), which is what \<open>avnd::generic_audio_sample_port\<close> and
  \<open>if_possible(field.sample = in)\<close> ask for, or it is any other field.
\<close>

datatype ('a, 'b) port = Audio_sample 'a | Other_port 'b

fun generic_audio_sample_port :: "('a, 'b) port \<Rightarrow> bool" where
  "generic_audio_sample_port (Audio_sample _) = True"
| "generic_audio_sample_port (Other_port _) = False"

text \<open>
  One effect with its ports, as in \<open>auto& [fx, ins, outs] = ref\<close>. The processing
  operation works on the three by reference, whichever of the accepted signatures
  (\<open>fx(ins, outs, tick)\<close>, \<open>fx(ins, tick)\<close>, \<open>fx(outs, tick)\<close>, \<open>fx(tick)\<close>, and the same
  without \<open>tick\<close>) the \<open>if constexpr\<close> chain of \<open>process_sample\<close> selects: the ports may
  be members of the effect itself. It is a function from the state of the three to
  their new state; its first argument is \<open>current_tick(implementation)\<close> when that
  expression is well-formed.
\<close>

record ('s, 'a, 'b) effect =
  fx :: 's
  ins :: "('a, 'b) port list"
  outs :: "('a, 'b) port list"

type_synonym ('t, 's, 'a, 'b) processing_operation =
  "'t option \<Rightarrow> ('s, 'a, 'b) effect \<Rightarrow> ('s, 'a, 'b) effect"

text \<open>
  Sample storage is a map from addresses (counted in samples) to samples; a
  \<open>span<FP*>\<close> is the list of its channel pointers, and \<open>in[c][i]\<close> is the sample at
  address \<open>in ! c + i\<close>. Beside the storage and the effects (the \<open>effect_container\<close>)
  the state keeps an observation log of what the adapter did, in order: reading input
  channel \<open>c\<close> at frame \<open>i\<close>, invoking the processing operation of the effect for
  channel \<open>c\<close>, writing output channel \<open>c\<close> at frame \<open>i\<close>.
\<close>

datatype event = Load nat int | Call nat | Store nat int

record ('a, 'c) audio_state =
  memory :: "int \<Rightarrow> 'a"
  container :: 'c
  events :: "event list"

datatype fatal_error = Assertion_failed

text \<open>\<open>const int channels = in.size()\<close>: the conversion of a \<open>std::size_t\<close> to \<open>int\<close>.\<close>

definition int_of_size :: "nat \<Rightarrow> int" where
  "int_of_size sz =
     (let m = int sz mod 2 ^ 32 in if m < 2 ^ 31 then m else m - 2 ^ 32)"

text \<open>\<open>for (int32_t i = 0; i < n; i++)\<close> with the loop body as a state transformer.\<close>

function for_frames :: "(int \<Rightarrow> 'st \<Rightarrow> 'st) \<Rightarrow> int \<Rightarrow> int \<Rightarrow> 'st \<Rightarrow> 'st" where
  "for_frames body i n st = (if i < n then for_frames body (i + 1) n (body i st) else st)"
  by pat_completeness auto
termination
  by (relation "measure (\<lambda>(body, i, n, st). nat (n - i))") auto

declare for_frames.simps [simp del]

subsection \<open>Mono processors: one effect per channel\<close>

text \<open>
  \<open>process_0\<close>: every input field with a \<open>sample\<close> member receives \<open>in\<close>, the operation
  runs, and \<open>out\<close> is read back from the output fields with a \<open>sample\<close> member (the last
  one wins). The local \<open>FP out;\<close> is not initialised: \<open>indeterminate\<close> is what it holds
  should no output field have a sample, which the \<open>requires\<close>-clause of the adapter
  excludes.
\<close>

definition copy_the_input :: "'a \<Rightarrow> ('a, 'b) port list \<Rightarrow> ('a, 'b) port list" where
  "copy_the_input inp ports =
     map (\<lambda>field. case field of Audio_sample _ \<Rightarrow> Audio_sample inp
                    | Other_port y \<Rightarrow> Other_port y) ports"

definition read_back_the_output :: "('a, 'b) port list \<Rightarrow> 'a \<Rightarrow> 'a" where
  "read_back_the_output ports out =
     fold (\<lambda>field out. case field of Audio_sample x \<Rightarrow> x | Other_port _ \<Rightarrow> out) ports out"

definition process_0 ::
  "('t, 's, 'a, 'b) processing_operation \<Rightarrow> 't option \<Rightarrow> 'a \<Rightarrow> 'a \<Rightarrow> ('s, 'a, 'b) effect
     \<Rightarrow> 'a \<times> ('s, 'a, 'b) effect" where
  "process_0 call tick indeterminate inp ref =
     (let ref' = call tick (ref\<lparr>ins := copy_the_input inp (ins ref)\<rparr>)
      in (read_back_the_output (outs ref') indeterminate, ref'))"

text \<open>
  The loop \<open>for (c = 0; c < channels && effects_it != effects_range.end(); ++c,
  ++effects_it)\<close> over the effects of \<open>full_state()\<close>: it stops at the first of the two
  bounds. \<open>current_tick(implementation)\<close> is evaluated at each call, on the effects as
  they then are: those of the channels \<open>before\<close>, already processed, and the remaining
  ones.
\<close>

fun write_the_output_channels ::
  "('t, 's, 'a, 'b) processing_operation \<Rightarrow> (('s, 'a, 'b) effect list \<Rightarrow> 't) option \<Rightarrow> 'a
     \<Rightarrow> 'a list \<Rightarrow> int list \<Rightarrow> int \<Rightarrow> nat \<Rightarrow> nat
     \<Rightarrow> ('s, 'a, 'b) effect list \<Rightarrow> ('s, 'a, 'b) effect list \<Rightarrow> (int \<Rightarrow> 'a) \<times> event list
     \<Rightarrow> ('s, 'a, 'b) effect list \<times> (int \<Rightarrow> 'a) \<times> event list" where
  "write_the_output_channels call current_tick indeterminate input_buf out i channels c
       before [] st =
     ([], st)"
| "write_the_output_channels call current_tick indeterminate input_buf out i channels c
       before (ref # effects) (mem, ev) =
     (if c < channels then
        (case process_0 call (map_option (\<lambda>f. f (before @ ref # effects)) current_tick)
                indeterminate (input_buf ! c) ref of
           (y, ref') \<Rightarrow>
             (case write_the_output_channels call current_tick indeterminate input_buf out i
                     channels (Suc c) (before @ [ref']) effects
                     (mem(out ! c + i := y), ev @ [Call c, Store c i]) of
                (effects', st') \<Rightarrow> (ref' # effects', st')))
      else (ref # effects, (mem, ev)))"

definition mono_frame ::
  "('t, 's, 'a, 'b) processing_operation \<Rightarrow> (('s, 'a, 'b) effect list \<Rightarrow> 't) option \<Rightarrow> 'a
     \<Rightarrow> int list \<Rightarrow> int list \<Rightarrow> nat \<Rightarrow> int
     \<Rightarrow> ('a, ('s, 'a, 'b) effect list) audio_state \<Rightarrow> ('a, ('s, 'a, 'b) effect list) audio_state" where
  "mono_frame call current_tick indeterminate inp out channels i st =
     (let input_buf = map (\<lambda>c. memory st (inp ! c + i)) [0 ..< channels];
          loaded = events st @ map (\<lambda>c. Load c i) [0 ..< channels]
      in case write_the_output_channels call current_tick indeterminate
                input_buf out i channels 0 [] (container st) (memory st, loaded) of
           (effects', mem', ev') \<Rightarrow> \<lparr>memory = mem', container = effects', events = ev'\<rparr>)"

text \<open>
  \<open>process\<close> of the mono adapter. The \<open>assert\<close> aborts the program when the two channel
  counts differ.
\<close>

definition process_mono ::
  "('t, 's, 'a, 'b) processing_operation \<Rightarrow> (('s, 'a, 'b) effect list \<Rightarrow> 't) option \<Rightarrow> 'a
     \<Rightarrow> int list \<Rightarrow> int list \<Rightarrow> int
     \<Rightarrow> ('a, ('s, 'a, 'b) effect list) audio_state
     \<Rightarrow> fatal_error + ('a, ('s, 'a, 'b) effect list) audio_state" where
  "process_mono call current_tick indeterminate inp out n st =
     (let input_channels = int_of_size (length inp);
          output_channels = int_of_size (length out)
      in if input_channels \<noteq> output_channels then Inl Assertion_failed
         else let channels = input_channels
              in Inr (for_frames
                        (mono_frame call current_tick indeterminate inp out (nat channels))
                        0 n st))"

subsection \<open>Poly processors: one effect, one sample port per channel\<close>

text \<open>The two field loops of a frame, each with its counter \<open>k\<close> of channels used.\<close>

fun copy_inputs ::
  "(int \<Rightarrow> 'a) \<Rightarrow> int list \<Rightarrow> int \<Rightarrow> nat \<Rightarrow> ('a, 'b) port list
     \<Rightarrow> ('a, 'b) port list \<times> event list" where
  "copy_inputs mem inp i k [] = ([], [])"
| "copy_inputs mem inp i k (Audio_sample x # ports) =
     (if k < length inp then
        (case copy_inputs mem inp i (Suc k) ports of
           (ports', ev) \<Rightarrow> (Audio_sample (mem (inp ! k + i)) # ports', Load k i # ev))
      else
        (case copy_inputs mem inp i k ports of
           (ports', ev) \<Rightarrow> (Audio_sample x # ports', ev)))"
| "copy_inputs mem inp i k (Other_port y # ports) =
     (case copy_inputs mem inp i k ports of
        (ports', ev) \<Rightarrow> (Other_port y # ports', ev))"

fun copy_outputs ::
  "int list \<Rightarrow> int \<Rightarrow> nat \<Rightarrow> ('a, 'b) port list \<Rightarrow> (int \<Rightarrow> 'a) \<times> event list
     \<Rightarrow> (int \<Rightarrow> 'a) \<times> event list" where
  "copy_outputs out i k [] st = st"
| "copy_outputs out i k (Audio_sample x # ports) (mem, ev) =
     (if k < length out then
        copy_outputs out i (Suc k) ports (mem(out ! k + i := x), ev @ [Store k i])
      else copy_outputs out i k ports (mem, ev))"
| "copy_outputs out i k (Other_port y # ports) st = copy_outputs out i k ports st"

definition poly_frame ::
  "('t, 's, 'a, 'b) processing_operation \<Rightarrow> (('s, 'a, 'b) effect \<Rightarrow> 't) option
     \<Rightarrow> int list \<Rightarrow> int list \<Rightarrow> int
     \<Rightarrow> ('a, ('s, 'a, 'b) effect) audio_state \<Rightarrow> ('a, ('s, 'a, 'b) effect) audio_state" where
  "poly_frame call current_tick inp out i st =
     (case copy_inputs (memory st) inp i 0 (ins (container st)) of
        (ins', loads) \<Rightarrow>
          (let implementation' =
                 call (map_option (\<lambda>f. f ((container st)\<lparr>ins := ins'\<rparr>)) current_tick)
                   ((container st)\<lparr>ins := ins'\<rparr>)
           in case copy_outputs out i 0 (outs implementation')
                     (memory st, events st @ loads @ [Call 0]) of
                (mem', ev') \<Rightarrow>
                  \<lparr>memory = mem', container = implementation', events = ev'\<rparr>))"

definition process_poly ::
  "('t, 's, 'a, 'b) processing_operation \<Rightarrow> (('s, 'a, 'b) effect \<Rightarrow> 't) option
     \<Rightarrow> int list \<Rightarrow> int list \<Rightarrow> int
     \<Rightarrow> ('a, ('s, 'a, 'b) effect) audio_state \<Rightarrow> ('a, ('s, 'a, 'b) effect) audio_state" where
  "process_poly call current_tick inp out n st =
     for_frames (poly_frame call current_tick inp out) 0 n st"

subsection \<open>What the statements observe and assume\<close>

text \<open>The shape of a mono processor: a sample port on each side.\<close>

definition mono_per_sample_port_processor :: "('s, 'a, 'b) effect \<Rightarrow> bool" where
  "mono_per_sample_port_processor ref =
     (list_ex generic_audio_sample_port (ins ref) \<and> list_ex generic_audio_sample_port (outs ref))"

text \<open>
  For a frame \<open>i\<close>: no input sample of frame \<open>i\<close> is read after an output sample of
  frame \<open>i\<close> was written.
\<close>

fun loads_before_stores :: "event list \<Rightarrow> bool" where
  "loads_before_stores [] = True"
| "loads_before_stores (Store c i # evs) =
     (list_all (\<lambda>e. case e of Load c' i' \<Rightarrow> i' \<noteq> i | _ \<Rightarrow> True) evs
      \<and> loads_before_stores evs)"
| "loads_before_stores (e # evs) = loads_before_stores evs"

text \<open>
  Output spans that alias input spans the way a host that reuses its buffers does: over
  \<open>n\<close> frames an output channel either is an input channel (the same pointer) or shares
  no sample with it, and two output channels share no sample.
\<close>

definition separate :: "int \<Rightarrow> int \<Rightarrow> int \<Rightarrow> bool" where
  "separate n p q = (p + n \<le> q \<or> q + n \<le> p)"

definition reused_buffers :: "int list \<Rightarrow> int list \<Rightarrow> int \<Rightarrow> bool" where
  "reused_buffers inp out n =
     ((\<forall>c < length out. \<forall>c' < length inp. out ! c = inp ! c' \<or> separate n (out ! c) (inp ! c'))
      \<and> (\<forall>c < length out. \<forall>c' < length out. c \<noteq> c' \<longrightarrow> separate n (out ! c) (out ! c')))"

text \<open>
  What a frame of the mono adapter is expected to log with \<open>channels\<close> channels and
  \<open>instances\<close> effects: the reads of all channels, then for each processed channel the
  invocation and the write.
\<close>

definition mono_frame_events :: "nat \<Rightarrow> nat \<Rightarrow> int \<Rightarrow> event list" where
  "mono_frame_events channels instances i =
     map (\<lambda>c. Load c i) [0 ..< channels]
     @ concat (map (\<lambda>d. [Call d, Store d i]) [0 ..< min channels instances])"

subsection \<open>Processing operations and states for the concrete evaluations\<close>

text \<open>
  The identity as a processing operation: the sample of the first input field with a
  sample is stored in every output field with a sample.
\<close>

fun first_sample :: "('a, 'b) port list \<Rightarrow> 'a option" where
  "first_sample [] = None"
| "first_sample (Audio_sample x # ports) = Some x"
| "first_sample (Other_port y # ports) = first_sample ports"

definition identity_operation :: "('t, 's, 'a, 'b) processing_operation" where
  "identity_operation tick ref =
     (case first_sample (ins ref) of
        None \<Rightarrow> ref
      | Some x \<Rightarrow> ref\<lparr>outs := copy_the_input x (outs ref)\<rparr>)"

text \<open>A processor type for which \<open>current_tick(implementation)\<close> is not well-formed.\<close>

definition no_current_tick :: "('c \<Rightarrow> unit) option" where
  "no_current_tick = None"

text \<open>
  Eight samples \<open>1, \<dots>, 8\<close> at the addresses \<open>0, \<dots>, 7\<close>: two channels of four frames,
  \<open>[1, 2, 3, 4]\<close> from address 0 and \<open>[5, 6, 7, 8]\<close> from address 4. Two mono effects,
  each with a control and a sample port as inputs and a sample port as output.
\<close>

definition example_memory :: "int \<Rightarrow> real" where
  "example_memory a = (if 0 \<le> a \<and> a < 8 then of_int (a + 1) else 0)"

definition example_mono_state :: "(real, (unit, real, bool) effect list) audio_state" where
  "example_mono_state =
     \<lparr>memory = example_memory,
      container =
        [\<lparr>fx = (), ins = [Other_port True, Audio_sample 0], outs = [Audio_sample 0]\<rparr>,
         \<lparr>fx = (), ins = [Other_port True, Audio_sample 0], outs = [Audio_sample 0]\<rparr>],
      events = []\<rparr>"

text \<open>
  A poly processor for the concrete evaluations: three sample inputs (and a control
  between them), two sample outputs (and another port between them); its operation
  stores the sum of the first two input samples and the third input sample in the
  outputs and counts its invocations in \<open>fx\<close>. Its state starts over the example memory.
\<close>

definition samples :: "('a, 'b) port list \<Rightarrow> 'a list" where
  "samples ports =
     concat (map (\<lambda>p. case p of Audio_sample x \<Rightarrow> [x] | Other_port y \<Rightarrow> []) ports)"

definition example_poly_operation :: "(unit, nat, real, bool) processing_operation" where
  "example_poly_operation tick ref =
     ref\<lparr>fx := Suc (fx ref),
         outs := (case samples (ins ref) of
                    a # b # c # _ \<Rightarrow> [Audio_sample (a + b), Other_port False, Audio_sample c]
                  | _ \<Rightarrow> outs ref)\<rparr>"

definition example_poly_state :: "(real, (nat, real, bool) effect) audio_state" where
  "example_poly_state =
     \<lparr>memory = example_memory,
      container =
        \<lparr>fx = 0,
         ins = [Audio_sample 0, Other_port True, Audio_sample 0, Audio_sample 0],
         outs = [Audio_sample 0, Other_port False, Audio_sample 0]\<rparr>,
      events = []\<rparr>"

section \<open>Properties of the index map\<close>

lemma index_of_element_loop_nth:
  "distinct Idx \<Longrightarrow> i < length Idx \<Longrightarrow>
     index_of_element_loop (Idx ! i) Idx k = k + int i"
proof (induction Idx arbitrary: i k)
  case Nil
  then show ?case by simp
next
  case (Cons a Idx)
  show ?case
  proof (cases i)
    case 0
    then show ?thesis by simp
  next
    case (Suc j)
    with Cons.prems have j: "j < length Idx" and d: "distinct Idx" and "Idx ! j \<noteq> a"
      by auto
    with Cons.IH [OF d j, of "k + 1"] Suc show ?thesis by simp
  qed
qed

lemma indices_n_increasing: "sorted_wrt (<) (indices_n T P)"
proof -
  have "sorted_wrt (<) (filter (matches_predicate_i T P) [0 ..< length T])"
    by (rule sorted_wrt_filter) simp
  then show ?thesis
    by (simp add: indices_n_def indices_def sorted_wrt_map)
qed

lemma indices_n_distinct: "distinct (indices_n T P)"
  using indices_n_increasing [of T P] by (simp add: strict_sorted_iff)

lemma indices_n_nonneg: "m \<in> set (indices_n T P) \<Longrightarrow> 0 \<le> m"
  by (auto simp: indices_n_def)

lemma unmap_of_map_id:
  assumes "i < size_n T P"
  shows "unmap_of_map T P i = Inr (int i)"
proof -
  let ?xs = "indices_n T P"
  from assms have i: "i < length ?xs" by (simp add: size_n_def)
  then have "?xs ! i \<in> set ?xs" by (rule nth_mem)
  then have "0 \<le> ?xs ! i" by (rule indices_n_nonneg)
  then have nn: "int (nat (?xs ! i)) = ?xs ! i" by simp
  have "index_of_element_loop (?xs ! i) ?xs 0 = int i"
    using index_of_element_loop_nth [OF indices_n_distinct i, of 0] by simp
  moreover from i have "indices_n T P \<noteq> []" by auto
  ultimately show ?thesis using i nn
    by (simp add: unmap_of_map_def map_index_def unmap_index_def index_map_def
        index_of_element_def)
qed

text \<open>
  C1. For every record type \<open>T\<close> and capability predicate \<open>P\<close>:
  \<open>unmap(map(i)) = i\<close> for every \<open>i\<close> in \<open>[0, size)\<close> (both compile-time
  evaluations succeed), the entries of \<open>index_map\<close> are strictly increasing, every entry
  is the position of a field that satisfies \<open>P\<close>, and \<open>map\<close> is injective on
  \<open>[0, size)\<close>.
\<close>

theorem index_map_roundtrip:
  "(\<forall>i < size_n T P. unmap_of_map T P i = Inr (int i))
   \<and> sorted_wrt (<) (index_map T P)
   \<and> (\<forall>i < size_n T P. \<exists>m < length T. map_index T P i = Inr (int m) \<and> P (T ! m))
   \<and> inj_on (map_index T P) {..< size_n T P}"
proof (intro conjI allI impI)
  fix i assume "i < size_n T P"
  then show "unmap_of_map T P i = Inr (int i)" by (rule unmap_of_map_id)
next
  show "sorted_wrt (<) (index_map T P)"
    by (simp add: index_map_def indices_n_increasing)
next
  fix i assume "i < size_n T P"
  then have i: "i < length (filter (matches_predicate_i T P) [0 ..< length T])"
    by (simp add: size_n_def indices_n_def indices_def)
  let ?m = "filter (matches_predicate_i T P) [0 ..< length T] ! i"
  from i have "?m \<in> set (filter (matches_predicate_i T P) [0 ..< length T])"
    by (rule nth_mem)
  then have "?m < length T" and "P (T ! ?m)"
    by (auto simp: matches_predicate_i_def)
  moreover from i have "map_index T P i = Inr (int ?m)"
    by (simp add: map_index_def index_map_def indices_n_def indices_def)
  ultimately show "\<exists>m < length T. map_index T P i = Inr (int m) \<and> P (T ! m)"
    by blast
next
  show "inj_on (map_index T P) {..< size_n T P}"
  proof (rule inj_onI)
    fix i j assume "i \<in> {..< size_n T P}" and "j \<in> {..< size_n T P}"
      and eq: "map_index T P i = map_index T P j"
    then have i: "i < length (indices_n T P)" and j: "j < length (indices_n T P)"
      by (simp_all add: size_n_def)
    with eq have "indices_n T P ! i = indices_n T P ! j"
      by (simp add: map_index_def index_map_def)
    with indices_n_distinct [of T P] i j show "i = j"
      by (simp add: nth_eq_iff_index_eq)
  qed
qed

theorem index_map_roundtrip_witness:
  "size_n [True, False, True, True] id = 3
   \<and> index_map [True, False, True, True] id = [0, 2, 3]
   \<and> unmap_of_map [True, False, True, True] id 0 = Inr 0
   \<and> unmap_of_map [True, False, True, True] id 1 = Inr 1
   \<and> unmap_of_map [True, False, True, True] id 2 = Inr 2
   \<and> map_index [True, False, True, True] id 1 = Inr 2"
proof -
  have s: "size_n [True, False, True, True] id = 3"
    by (simp add: size_n_def indices_n_def indices_def matches_predicate_i_def upt_rec)
  have m: "index_map [True, False, True, True] id = [0, 2, 3]"
    by (simp add: index_map_def indices_n_def indices_def matches_predicate_i_def upt_rec)
  have a: "\<forall>i < size_n [True, False, True, True] id.
        unmap_of_map [True, False, True, True] id i = Inr (int i)"
    using index_map_roundtrip [of "[True, False, True, True]" id] by blast
  have "unmap_of_map [True, False, True, True] id 0 = Inr 0"
    and "unmap_of_map [True, False, True, True] id 1 = Inr 1"
    and "unmap_of_map [True, False, True, True] id 2 = Inr 2"
    using a s by simp_all
  moreover have "map_index [True, False, True, True] id 1 = Inr 2"
    using m by (simp add: map_index_def)
  ultimately show ?thesis using s m by blast
qed

section \<open>Properties of the router\<close>

text \<open>
  C6. If the name of the event matches a handler that the author declared for that name,
  the handler is invoked with the event's argument list and processing stops: the first
  inlet is not assigned, the processing operation is not invoked and no output is
  committed (the outlets are as before, and the only action performed is the handler).
\<close>

theorem matched_message_stops:
  assumes "map_of (messages T) s = Some handler"
  shows "\<exists>st'. process T generic st s argv = Inr st'
           \<and> implementation st' = handler argv (implementation st)
           \<and> outlets st' = outlets st
           \<and> performed st' = performed st @ [Handler_invoked s argv]"
  using assms by (simp add: process_def process_messages_def)

theorem matched_message_stops_witness:
  "process example_type example_generic example_processor ''reset'' [A_FLOAT 3] =
     Inr (example_processor\<lparr>implementation := (implementation example_processor)\<lparr>members := 0\<rparr>,
            performed := [Handler_invoked ''reset'' [A_FLOAT 3]]\<rparr>)"
proof -
  have "map_of (messages example_type) ''reset'' = Some (\<lambda>argv obj. obj\<lparr>members := 0\<rparr>)"
    by (simp add: example_type_def)
  from matched_message_stops [OF this, of example_generic example_processor "[A_FLOAT 3]"]
  show ?thesis by (auto simp: example_processor_def)
qed

text \<open>
  C7. An event without arguments that no declared handler matches: when its name is
  \<open>bang\<close>, the processing operation is invoked (if the record defines one) and then the
  outputs it left are committed; with any other name the generic fallback runs, the
  processing operation is not invoked and nothing is committed.
\<close>

theorem bang_invokes_and_commits:
  assumes "map_of (messages T) s = None"
  shows "(s = ''bang'' \<longrightarrow>
            (\<exists>st'. process T generic st s [] = Inr st'
               \<and> implementation st' =
                   (case call_operator T of None \<Rightarrow> implementation st
                    | Some f \<Rightarrow> f (implementation st))
               \<and> outlets st' = outlets st @ [outputs (implementation st')]
               \<and> performed st' = performed st
                   @ (case call_operator T of None \<Rightarrow> [] | Some f \<Rightarrow> [Processing_invoked])
                   @ [Outputs_committed]))
       \<and> (s \<noteq> ''bang'' \<longrightarrow>
            (\<exists>st'. process T generic st s [] = Inr st'
               \<and> implementation st' = generic (implementation st) s
               \<and> outlets st' = outlets st
               \<and> performed st' = performed st @ [Generic_message s]))"
proof (cases "s = ''bang''")
  case True
  with assms show ?thesis
    by (simp add: process_def process_messages_def s_bang_def commit_def
        if_possible_implementation_def split: option.split)
next
  case False
  with assms show ?thesis
    by (simp add: process_def process_messages_def s_bang_def
        process_generic_message_def)
qed

theorem bang_invokes_and_commits_witness:
  "process example_type example_generic example_processor ''bang'' [] =
     Inr \<lparr>implementation =
            (implementation example_processor)\<lparr>outputs := [Number 0], members := 6\<rparr>,
          outlets = [[Number 0]],
          performed = [Processing_invoked, Outputs_committed]\<rparr>
   \<and> process example_type example_generic example_processor ''dumpall'' [] =
     Inr (example_processor\<lparr>performed := [Generic_message ''dumpall'']\<rparr>)"
proof -
  have none: "map_of (messages example_type) ''bang'' = None"
    "map_of (messages example_type) ''dumpall'' = None"
    by (simp_all add: example_type_def)
  have "''dumpall'' \<noteq> ''bang''" by simp
  with bang_invokes_and_commits [OF none(1), of example_generic example_processor]
    bang_invokes_and_commits [OF none(2), of example_generic example_processor]
  show ?thesis
    by (auto simp: example_processor_def example_type_def example_generic_def)
qed

lemma process_default_with_arguments:
  assumes "map_of (messages T) s = None"
    and "process_first_inlet_control st s (a # rest) = Inr st1"
  shows "process T generic st s (a # rest) = Inr (commit (if_possible_implementation T st1))"
  using assms by (simp add: process_def process_messages_def)

lemma invoke_and_commit:
  "implementation (commit (if_possible_implementation T st1)) =
     (case call_operator T of None \<Rightarrow> implementation st1 | Some f \<Rightarrow> f (implementation st1))
   \<and> outlets (commit (if_possible_implementation T st1)) =
       outlets st1 @ [outputs (implementation (commit (if_possible_implementation T st1)))]
   \<and> performed (commit (if_possible_implementation T st1)) =
       performed st1
       @ (case call_operator T of None \<Rightarrow> [] | Some f \<Rightarrow> [Processing_invoked])
       @ [Outputs_committed]"
  by (simp add: commit_def if_possible_implementation_def split: option.split)






text \<open>
  C10. In default mode with arguments present the event's name has no influence: two
  events with the same non-empty argument list, neither of whose names matches a
  declared handler, lead from the same processor state to the same result (the same
  implementation state, the same committed outputs and the same actions), and the
  result is not an error.
\<close>

theorem default_mode_ignores_name:
  assumes "map_of (messages T) s1 = None" and "map_of (messages T) s2 = None"
    and "argv \<noteq> []"
  shows "process T generic st s1 argv = process T generic st s2 argv
         \<and> (\<exists>st'. process T generic st s1 argv = Inr st')"
proof -
  from \<open>argv \<noteq> []\<close> obtain a rest where argv: "argv = a # rest"
    by (cases argv) auto
  have same: "process_first_inlet_control st s1 argv = process_first_inlet_control st s2 argv"
    by (simp add: process_first_inlet_control_def)
  have "\<exists>st1. process_first_inlet_control st s1 (a # rest) = Inr st1"
    by (simp add: process_first_inlet_control_def
        split: list.split t_atom.split option.split)
  then obtain st1 where st1: "process_first_inlet_control st s1 (a # rest) = Inr st1" ..
  with same argv have st2: "process_first_inlet_control st s2 (a # rest) = Inr st1"
    by simp
  from process_default_with_arguments [OF assms(1) st1, of generic]
    process_default_with_arguments [OF assms(2) st2, of generic] argv
  show ?thesis by simp
qed

theorem default_mode_ignores_name_witness:
  "process example_type example_generic example_processor ''float'' [A_FLOAT 3, A_OTHER] =
   process example_type example_generic example_processor ''list'' [A_FLOAT 3, A_OTHER]"
proof -
  have "map_of (messages example_type) ''float'' = None"
    and "map_of (messages example_type) ''list'' = None"
    and "[A_FLOAT (3::real), A_OTHER] \<noteq> []"
    by (simp_all add: example_type_def)
  from default_mode_ignores_name [OF this] show ?thesis by blast
qed

section \<open>Properties of the marshaller\<close>

lemma narrow_in_range:
  "0 < w \<Longrightarrow> - (2 ^ (w - 1)) \<le> v \<Longrightarrow> v < 2 ^ (w - 1) \<Longrightarrow> narrow (Signed w) v = v"
  "0 \<le> v \<Longrightarrow> v < 2 ^ w \<Longrightarrow> narrow (Unsigned w) v = v"
proof -
  assume w: "0 < w" and lo: "- (2 ^ (w - 1)) \<le> v" and hi: "v < 2 ^ (w - 1)"
  from w have "(2::int) ^ w = 2 * 2 ^ (w - 1)"
    by (cases w) simp_all
  with lo hi have "0 \<le> v + 2 ^ (w - 1)" and "v + 2 ^ (w - 1) < 2 ^ w" by simp_all
  then have "(v + 2 ^ (w - 1)) mod 2 ^ w = v + 2 ^ (w - 1)" by simp
  then show "narrow (Signed w) v = v" by simp
next
  assume "0 \<le> v" and "v < 2 ^ w"
  then show "narrow (Unsigned w) v = v" by simp
qed

text \<open>
  C9. For an enumeration-like field (an enum parameter, or a field with a range that
  lists values) marshalling a host value is a silent drop: \<open>from_ossia_value\<close> succeeds and
  leaves the destination, and \<open>init_value\<close> the whole field, unchanged. For every other
  field each of the shapes impulse, 2/3/4-component vector, integral, floating, string
  and boolean is converted from the host value and assigned, whatever the destination
  held before: the vector's components, the \<open>int\<close> converted to the integral type of the
  destination (unchanged when the type holds it), the float, the string, the boolean
  (for an impulse there is nothing to convert: the destination has no field).
\<close>

theorem enum_ish_value_dropped:
  "(enum_ish_parameter field \<longrightarrow>
      from_ossia_value_field cv field src dst = Inr dst
      \<and> init_value cv (field\<lparr>parameter_value := dst\<rparr>) (data @ [src])
          = Inr (field\<lparr>parameter_value := dst\<rparr>))
   \<and> (\<not> enum_ish_parameter field \<longrightarrow>
      from_ossia_value_field cv field src (Aggregate []) = Inr (Aggregate [])
      \<and> from_ossia_value_field cv field src (Aggregate [a, b])
          = Inr (Aggregate [fst (convert_vec2f cv src), snd (convert_vec2f cv src)])
      \<and> from_ossia_value_field cv field src (Aggregate [a, b, c])
          = Inr (Aggregate [fst (convert_vec3f cv src), fst (snd (convert_vec3f cv src)),
                  snd (snd (convert_vec3f cv src))])
      \<and> from_ossia_value_field cv field src (Aggregate [a, b, c, d])
          = Inr (Aggregate [fst (convert_vec4f cv src), fst (snd (convert_vec4f cv src)),
                  fst (snd (snd (convert_vec4f cv src))),
                  snd (snd (snd (convert_vec4f cv src)))])
      \<and> from_ossia_value_field cv field src (Integral T i)
          = Inr (Integral T (narrow T (narrow cpp_int (convert_int cv src))))
      \<and> (0 < w \<and> - (2 ^ (w - 1)) \<le> convert_int cv src \<and> convert_int cv src < 2 ^ (w - 1)
           \<and> w \<le> 32
           \<longrightarrow> from_ossia_value_field cv field src (Integral (Signed w) i)
                = Inr (Integral (Signed w) (convert_int cv src)))
      \<and> from_ossia_value_field cv field src (Floating x) = Inr (Floating (convert_float cv src))
      \<and> from_ossia_value_field cv field src (String_ish s)
          = Inr (String_ish (convert_string cv src))
      \<and> from_ossia_value_field cv field src (Boolean p) = Inr (Boolean (convert_bool cv src)))"
proof (cases "enum_ish_parameter field")
  case True
  have "enum_ish_parameter (field\<lparr>parameter_value := dst\<rparr>)"
    using True by (simp add: enum_ish_parameter_def)
  with True show ?thesis
    by (simp add: from_ossia_value_field_def init_value_def)
next
  case False
  have exact: "0 < w \<and> - (2 ^ (w - 1)) \<le> convert_int cv src \<and> convert_int cv src < 2 ^ (w - 1)
       \<and> w \<le> 32
       \<longrightarrow> narrow (Signed w) (narrow cpp_int (convert_int cv src)) = convert_int cv src"
  proof
    assume h: "0 < w \<and> - (2 ^ (w - 1)) \<le> convert_int cv src
        \<and> convert_int cv src < 2 ^ (w - 1) \<and> w \<le> 32"
    then have "w - 1 \<le> 31" by arith
    then have "(2::int) ^ (w - 1) \<le> 2 ^ 31" by (rule power_increasing) simp
    with h have "- (2 ^ (32 - 1)) \<le> convert_int cv src" "convert_int cv src < 2 ^ (32 - 1)"
      by simp_all
    then have "narrow (Signed 32) (convert_int cv src) = convert_int cv src"
      by (intro narrow_in_range(1)) simp_all
    moreover from h have "narrow (Signed w) (convert_int cv src) = convert_int cv src"
      by (intro narrow_in_range(1)) simp_all
    ultimately show "narrow (Signed w) (narrow cpp_int (convert_int cv src)) = convert_int cv src"
      by (simp add: cpp_int_def)
  qed
  show ?thesis
    using False exact
    by (simp add: from_ossia_value_field_def split: prod.split del: narrow.simps)
qed

theorem enum_ish_value_dropped_witness:
  "from_ossia_value_field example_convert
      \<lparr>parameter_value = Integral (Signed 32) 1, enum_parameter = True, has_range = False,
       range_has_values = False\<rparr> 7 (Integral (Signed 32) 1) = Inr (Integral (Signed 32) 1)
   \<and> from_ossia_value_field example_convert
      \<lparr>parameter_value = Integral (Signed 32) 1, enum_parameter = False, has_range = True,
       range_has_values = True\<rparr> 7 (Integral (Signed 32) 1) = Inr (Integral (Signed 32) 1)
   \<and> from_ossia_value_field example_convert
      \<lparr>parameter_value = Integral (Signed 32) 1, enum_parameter = False, has_range = True,
       range_has_values = False\<rparr> 7 (Integral (Signed 32) 1) = Inr (Integral (Signed 32) 7)
   \<and> from_ossia_value_field example_convert
      \<lparr>parameter_value = Integral (Signed 8) 1, enum_parameter = False, has_range = False,
       range_has_values = False\<rparr> 300 (Integral (Signed 8) 1) = Inr (Integral (Signed 8) 44)
   \<and> from_ossia_value_field example_convert
      \<lparr>parameter_value = Integral (Unsigned 32) 1, enum_parameter = False, has_range = False,
       range_has_values = False\<rparr> (- 1) (Integral (Unsigned 32) 1)
       = Inr (Integral (Unsigned 32) 4294967295)
   \<and> from_ossia_value_field example_convert
      \<lparr>parameter_value = Aggregate [0, 0], enum_parameter = False, has_range = False,
       range_has_values = False\<rparr> 7 (Aggregate [0, 0]) = Inr (Aggregate [7, 7])"
proof -
  let ?n = "\<lparr>parameter_value = Integral (Signed 32) 1, enum_parameter = True, has_range = False,
       range_has_values = False\<rparr> :: real parameter"
  let ?e = "\<lparr>parameter_value = Integral (Signed 32) 1, enum_parameter = False, has_range = True,
       range_has_values = True\<rparr> :: real parameter"
  let ?r = "\<lparr>parameter_value = Integral (Signed 32) 1, enum_parameter = False, has_range = True,
       range_has_values = False\<rparr> :: real parameter"
  let ?c = "\<lparr>parameter_value = Integral (Signed 8) 1, enum_parameter = False, has_range = False,
       range_has_values = False\<rparr> :: real parameter"
  let ?u = "\<lparr>parameter_value = Integral (Unsigned 32) 1, enum_parameter = False,
       has_range = False, range_has_values = False\<rparr> :: real parameter"
  let ?v = "\<lparr>parameter_value = Aggregate [0, 0], enum_parameter = False, has_range = False,
       range_has_values = False\<rparr> :: real parameter"
  have n: "enum_ish_parameter ?n" and e: "enum_ish_parameter ?e"
    and r: "\<not> enum_ish_parameter ?r" and c: "\<not> enum_ish_parameter ?c"
    and u: "\<not> enum_ish_parameter ?u" and v: "\<not> enum_ish_parameter ?v"
    by (simp_all add: enum_ish_parameter_def)
  from enum_ish_value_dropped [of ?n example_convert 7 "Integral (Signed 32) 1"] n
  have 1: "from_ossia_value_field example_convert ?n 7 (Integral (Signed 32) 1)
      = Inr (Integral (Signed 32) 1)"
    by blast
  from enum_ish_value_dropped [of ?e example_convert 7 "Integral (Signed 32) 1"] e
  have 2: "from_ossia_value_field example_convert ?e 7 (Integral (Signed 32) 1)
      = Inr (Integral (Signed 32) 1)"
    by blast
  have "\<lfloor>- 1 :: real\<rfloor> = - 1"
    using floor_of_int [of "- 1", where ?'a = real] by simp
  then have conv: "convert_int example_convert 7 = 7" "convert_int example_convert 300 = 300"
    "convert_int example_convert (- 1) = - 1"
    by (simp_all add: example_convert_def)
  from enum_ish_value_dropped [where field = ?r and cv = example_convert and src = 7
      and T = "Signed 32" and i = 1] r
  have "from_ossia_value_field example_convert ?r 7 (Integral (Signed 32) 1)
      = Inr (Integral (Signed 32) (narrow (Signed 32) (narrow cpp_int 7)))"
    unfolding conv by blast
  then have 3: "from_ossia_value_field example_convert ?r 7 (Integral (Signed 32) 1)
      = Inr (Integral (Signed 32) 7)"
    by (simp add: cpp_int_def)
  from enum_ish_value_dropped [where field = ?c and cv = example_convert and src = 300
      and T = "Signed 8" and i = 1] c
  have "from_ossia_value_field example_convert ?c 300 (Integral (Signed 8) 1)
      = Inr (Integral (Signed 8) (narrow (Signed 8) (narrow cpp_int 300)))"
    unfolding conv by blast
  then have 4: "from_ossia_value_field example_convert ?c 300 (Integral (Signed 8) 1)
      = Inr (Integral (Signed 8) 44)"
    by (simp add: cpp_int_def)
  from enum_ish_value_dropped [where field = ?u and cv = example_convert and src = "- 1"
      and T = "Unsigned 32" and i = 1] u
  have "from_ossia_value_field example_convert ?u (- 1) (Integral (Unsigned 32) 1)
      = Inr (Integral (Unsigned 32) (narrow (Unsigned 32) (narrow cpp_int (- 1))))"
    unfolding conv by blast
  then have 5: "from_ossia_value_field example_convert ?u (- 1) (Integral (Unsigned 32) 1)
      = Inr (Integral (Unsigned 32) 4294967295)"
    by (simp add: cpp_int_def)
  from enum_ish_value_dropped [where field = ?v and cv = example_convert and src = 7
      and a = 0 and b = 0] v
  have 6: "from_ossia_value_field example_convert ?v 7 (Aggregate [0, 0]) = Inr (Aggregate [7, 7])"
    by (simp add: example_convert_def)
  from 1 2 3 4 5 6 show ?thesis by blast
qed

section \<open>Properties of the per-sample audio adapters\<close>

subsection \<open>The frame loop and the mono adapter\<close>

lemma int_of_size_small: "sz < 2 ^ 31 \<Longrightarrow> int_of_size sz = int sz"
proof -
  assume a: "sz < 2 ^ 31"
  then have "int sz < 2 ^ 31" by (metis of_nat_less_iff of_nat_numeral of_nat_power)
  moreover have "(2::int) ^ 31 < 2 ^ 32" by simp
  ultimately have "int sz mod 2 ^ 32 = int sz" by simp
  with \<open>int sz < 2 ^ 31\<close> show ?thesis by (simp add: int_of_size_def)
qed

lemma for_frames_done: "n \<le> i \<Longrightarrow> for_frames body i n st = st"
  by (subst for_frames.simps) simp

lemma for_frames_step: "i < n \<Longrightarrow> for_frames body i n st = for_frames body (i + 1) n (body i st)"
  by (subst for_frames.simps) simp

lemma for_frames_invariant:
  assumes "I i st" and "i \<le> n"
    and "\<And>j s. i \<le> j \<Longrightarrow> j < n \<Longrightarrow> I j s \<Longrightarrow> I (j + 1) (body j s)"
  shows "I n (for_frames body i n st)"
  using assms
proof (induction body i n st rule: for_frames.induct)
  case (1 body i n st)
  show ?case
  proof (cases "i < n")
    case True
    have "I (i + 1) (body i st)" using "1.prems" True by simp
    moreover have "i + 1 \<le> n" using True by simp
    moreover have "\<And>j s. i + 1 \<le> j \<Longrightarrow> j < n \<Longrightarrow> I j s \<Longrightarrow> I (j + 1) (body j s)"
      using "1.prems"(3) by simp
    ultimately have "I n (for_frames body (i + 1) n (body i st))"
      using "1.IH" [OF True] by blast
    with True show ?thesis by (simp add: for_frames_step)
  next
    case False
    with "1.prems" have "i = n" by simp
    with "1.prems" show ?thesis by (simp add: for_frames_done)
  qed
qed

lemma write_the_output_channels_effects:
  "length (fst (write_the_output_channels call ct ind buf out i channels c before effects st))
     = length effects"
proof (induction effects arbitrary: c before st)
  case Nil
  show ?case by simp
next
  case (Cons ref effects)
  obtain mem ev where st: "st = (mem, ev)" by (cases st)
  show ?case using Cons.IH
    by (simp add: st case_prod_unfold)
qed

lemma write_the_output_channels_events:
  "snd (snd (write_the_output_channels call ct ind buf out i channels c before effects (mem, ev)))
     = ev @ concat (map (\<lambda>d. [Call d, Store d i]) [c ..< min channels (c + length effects)])"
proof (induction effects arbitrary: c before mem ev)
  case Nil
  show ?case by simp
next
  case (Cons ref effects)
  show ?case
  proof (cases "c < channels")
    case True
    then have "[c ..< min channels (c + length (ref # effects))]
        = c # [Suc c ..< min channels (Suc c + length effects)]"
      by (simp add: upt_conv_Cons min_def)
    with True Cons.IH show ?thesis
      by (simp add: case_prod_unfold)
  next
    case False
    then show ?thesis by simp
  qed
qed

lemma write_the_output_channels_memory:
  assumes "\<forall>d. c \<le> d \<and> d < min channels (c + length effects) \<longrightarrow> a \<noteq> out ! d + i"
  shows "fst (snd (write_the_output_channels call ct ind buf out i channels c before effects
                     (mem, ev))) a = mem a"
  using assms
proof (induction effects arbitrary: c before mem ev)
  case Nil
  show ?case by simp
next
  case (Cons ref effects)
  show ?case
  proof (cases "c < channels")
    case True
    have here: "a \<noteq> out ! c + i" using Cons.prems True by simp
    have "\<forall>d. Suc c \<le> d \<and> d < min channels (Suc c + length effects) \<longrightarrow> a \<noteq> out ! d + i"
      using Cons.prems by simp
    from Cons.IH [OF this] here True show ?thesis
      by (simp add: case_prod_unfold)
  next
    case False
    then show ?thesis by simp
  qed
qed

lemma mono_frame_container:
  "length (container (mono_frame call current_tick ind inp out channels i st))
     = length (container st)"
  by (simp add: mono_frame_def Let_def case_prod_unfold write_the_output_channels_effects)

lemma mono_frame_events:
  "events (mono_frame call current_tick ind inp out channels i st)
     = events st @ mono_frame_events channels (length (container st)) i"
  by (simp add: mono_frame_def mono_frame_events_def Let_def case_prod_unfold
      write_the_output_channels_events)

lemma mono_frame_memory:
  assumes "\<forall>d < min channels (length (container st)). a \<noteq> out ! d + i"
  shows "memory (mono_frame call current_tick ind inp out channels i st) a = memory st a"
proof -
  have "\<forall>d. 0 \<le> d \<and> d < min channels (0 + length (container st)) \<longrightarrow> a \<noteq> out ! d + i"
    using assms by simp
  then show ?thesis
    by (simp add: mono_frame_def Let_def case_prod_unfold write_the_output_channels_memory)
qed

lemma mono_frames_trace_nonneg:
  fixes st :: "('a, ('s, 'a, 'b) effect list) audio_state"
  assumes "0 \<le> n"
  shows "length (container (for_frames (mono_frame call current_tick ind inp out channels) 0 n st))
           = length (container st)
         \<and> events (for_frames (mono_frame call current_tick ind inp out channels) 0 n st)
           = events st @ concat (map (mono_frame_events channels (length (container st)))
                                  [0 .. n - 1])"
proof -
  let ?I = "\<lambda>j s. length (container s) = length (container st)
      \<and> events s = events st @ concat (map (mono_frame_events channels (length (container st)))
                                    [0 .. j - 1])"
  have "?I n (for_frames (mono_frame call current_tick ind inp out channels) 0 n st)"
  proof (rule for_frames_invariant [where I = ?I])
    show "?I 0 st" by simp
    show "0 \<le> n" by fact
  next
    fix j and s :: "('a, ('s, 'a, 'b) effect list) audio_state"
    assume "0 \<le> j" and "j < n" and I: "?I j s"
    from \<open>0 \<le> j\<close> have "[0 .. j + 1 - 1] = [0 .. j - 1] @ [j]"
      by (simp add: upto_rec2)
    with I show "?I (j + 1) (mono_frame call current_tick ind inp out channels j s)"
      by (simp add: mono_frame_container mono_frame_events)
  qed
  then show ?thesis .
qed

lemma mono_frames_memory_nonneg:
  fixes st :: "('a, ('s, 'a, 'b) effect list) audio_state"
  assumes "0 \<le> n"
    and "\<forall>d < min channels (length (container st)). \<forall>i. 0 \<le> i \<and> i < n \<longrightarrow> a \<noteq> out ! d + i"
  shows "memory (for_frames (mono_frame call current_tick ind inp out channels) 0 n st) a
           = memory st a"
proof -
  let ?I = "\<lambda>j s. length (container s) = length (container st) \<and> memory s a = memory st a"
  have "?I n (for_frames (mono_frame call current_tick ind inp out channels) 0 n st)"
  proof (rule for_frames_invariant [where I = ?I])
    show "?I 0 st" by simp
    show "0 \<le> n" by fact
  next
    fix j and s :: "('a, ('s, 'a, 'b) effect list) audio_state"
    assume j: "0 \<le> j" "j < n" and I: "?I j s"
    have "\<forall>d < min channels (length (container s)). a \<noteq> out ! d + j"
      using assms(2) j I by simp
    from mono_frame_memory [OF this] I
    show "?I (j + 1) (mono_frame call current_tick ind inp out channels j s)"
      by (simp add: mono_frame_container)
  qed
  then show ?thesis by simp
qed

lemma process_mono_frames:
  assumes "length inp = length out" and "length inp < 2 ^ 31"
  shows "process_mono call current_tick ind inp out n st
           = Inr (for_frames (mono_frame call current_tick ind inp out (length inp)) 0 n st)"
  using assms by (simp add: process_mono_def int_of_size_small)

lemma Store_in_mono_frame_events:
  "Store c i \<in> set (mono_frame_events channels instances j)
     \<longleftrightarrow> c < min channels instances \<and> i = j"
  by (auto simp: mono_frame_events_def)

lemma Call_in_mono_frame_events:
  "Call c \<in> set (mono_frame_events channels instances j) \<longleftrightarrow> c < min channels instances"
  by (auto simp: mono_frame_events_def)

lemma Load_in_mono_frame_events:
  "Load c i \<in> set (mono_frame_events channels instances j) \<longleftrightarrow> c < channels \<and> i = j"
  by (auto simp: mono_frame_events_def)

lemma mono_frames_trace:
  fixes st :: "('a, ('s, 'a, 'b) effect list) audio_state"
  shows "length (container (for_frames (mono_frame call current_tick ind inp out channels) 0 n st))
           = length (container st)
         \<and> events (for_frames (mono_frame call current_tick ind inp out channels) 0 n st)
           = events st @ concat (map (mono_frame_events channels (length (container st)))
                                  [0 .. n - 1])"
proof (cases "0 \<le> n")
  case True
  then show ?thesis by (rule mono_frames_trace_nonneg)
next
  case False
  then show ?thesis by (simp add: for_frames_done)
qed

lemma mono_frames_memory:
  fixes st :: "('a, ('s, 'a, 'b) effect list) audio_state"
  assumes "\<forall>d < min channels (length (container st)). \<forall>i. 0 \<le> i \<and> i < n \<longrightarrow> a \<noteq> out ! d + i"
  shows "memory (for_frames (mono_frame call current_tick ind inp out channels) 0 n st) a
           = memory st a"
proof (cases "0 \<le> n")
  case True
  then show ?thesis using assms by (rule mono_frames_memory_nonneg)
next
  case False
  then show ?thesis by (simp add: for_frames_done)
qed

text \<open>
  C4. When the input and output channel counts are equal the assertion of the mono
  \<open>process\<close> holds and the call completes; when they differ (each span having fewer than
  \<open>2^31\<close> channels, so that the conversion to \<open>int\<close> keeps the counts) the assertion
  fails, which ends the program: the call yields no state to continue from.
\<close>

theorem channel_count_assertion:
  "(length inp = length out \<longrightarrow>
      (\<exists>st'. process_mono call current_tick indeterminate inp out n st = Inr st'))
   \<and> (length inp \<noteq> length out \<and> length inp < 2 ^ 31 \<and> length out < 2 ^ 31 \<longrightarrow>
      process_mono call current_tick indeterminate inp out n st = Inl Assertion_failed)"
  by (auto simp: process_mono_def int_of_size_small)

theorem channel_count_assertion_witness:
  "process_mono identity_operation no_current_tick 0 [0, 4] [8] 4 example_mono_state
     = Inl Assertion_failed
   \<and> (\<exists>st'. process_mono identity_operation no_current_tick 0 [0, 4] [4, 0] 4 example_mono_state
               = Inr st')"
  using channel_count_assertion [of "[0, 4]" "[8]" identity_operation no_current_tick 0 4 example_mono_state]
    channel_count_assertion [of "[0, 4]" "[4, 0]" identity_operation no_current_tick 0 4 example_mono_state]
  by simp

text \<open>
  C5. With fewer per-channel effects than channels (and equal input and output channel
  counts, below \<open>2^31\<close>) the mono \<open>process\<close> completes without an error, the effects are
  as many as before, and an output sample \<open>out[c][i]\<close> is written exactly for the
  channels \<open>c\<close> that have an effect and the frames \<open>0 \<le> i < n\<close>: no output sample of a
  remaining channel is written and no operation is invoked for it, and every address
  that is not an output sample of a processed channel holds what it held before.
\<close>

theorem fewer_instances_than_channels:
  fixes st :: "('a, ('s, 'a, 'b) effect list) audio_state"
  assumes "length inp = length out" and "length inp < 2 ^ 31"
    and "length (container st) < length inp"
  shows "\<exists>st' new.
           process_mono call current_tick indeterminate inp out n st = Inr st'
           \<and> length (container st') = length (container st)
           \<and> events st' = events st @ new
           \<and> (\<forall>c i. Store c i \<in> set new \<longleftrightarrow> c < length (container st) \<and> 0 \<le> i \<and> i < n)
           \<and> (\<forall>c. Call c \<in> set new \<longrightarrow> c < length (container st))
           \<and> (\<forall>a. (\<forall>c < length (container st). \<forall>i. 0 \<le> i \<and> i < n \<longrightarrow> a \<noteq> out ! c + i)
                 \<longrightarrow> memory st' a = memory st a)"
proof -
  let ?k = "length (container st)"
  let ?st' = "for_frames (mono_frame call current_tick indeterminate inp out (length inp)) 0 n st"
  let ?new = "concat (map (mono_frame_events (length inp) ?k) [0 .. n - 1])"
  have k: "min (length inp) ?k = ?k" using assms(3) by simp
  have A: "process_mono call current_tick indeterminate inp out n st = Inr ?st'"
    using assms(1,2) by (rule process_mono_frames)
  have B: "length (container ?st') = ?k" and C: "events ?st' = events st @ ?new"
    using mono_frames_trace [of call current_tick indeterminate inp out "length inp" n st]
    by simp_all
  have D: "\<forall>c i. Store c i \<in> set ?new \<longleftrightarrow> c < ?k \<and> 0 \<le> i \<and> i < n"
    by (auto simp: Store_in_mono_frame_events k)
  have E: "\<forall>c. Call c \<in> set ?new \<longrightarrow> c < ?k"
    by (auto simp: Call_in_mono_frame_events k)
  have F: "\<forall>a. (\<forall>c < ?k. \<forall>i. 0 \<le> i \<and> i < n \<longrightarrow> a \<noteq> out ! c + i)
                 \<longrightarrow> memory ?st' a = memory st a"
  proof (intro allI impI)
    fix a assume "\<forall>c < ?k. \<forall>i. 0 \<le> i \<and> i < n \<longrightarrow> a \<noteq> out ! c + i"
    then have "\<forall>d < min (length inp) ?k. \<forall>i. 0 \<le> i \<and> i < n \<longrightarrow> a \<noteq> out ! d + i"
      by (simp add: k)
    then show "memory ?st' a = memory st a" by (rule mono_frames_memory)
  qed
  show ?thesis
    by (intro exI [of _ ?st'] exI [of _ ?new] conjI) (rule A B C D E F)+
qed

theorem fewer_instances_than_channels_witness:
  "\<exists>st'. process_mono identity_operation no_current_tick 0 [0, 4, 0] [12, 16, 20] 4 example_mono_state
            = Inr st'
         \<and> memory st' 20 = 0 \<and> memory st' 23 = 0
         \<and> Store 2 0 \<notin> set (events st') \<and> Store 1 3 \<in> set (events st')"
proof -
  have len: "length (container example_mono_state) = 2"
    and ev: "events example_mono_state = []"
    and mem: "memory example_mono_state 20 = 0" "memory example_mono_state 23 = 0"
    by (simp_all add: example_mono_state_def example_memory_def)
  have "length [0, 4, 0 :: int] = length [12, 16, 20 :: int]"
    and "length [0, 4, 0 :: int] < 2 ^ 31"
    and "length (container example_mono_state) < length [0, 4, 0 :: int]"
    by (simp_all add: len)
  from fewer_instances_than_channels [OF this, of identity_operation no_current_tick 0 4]
  obtain st' new where
    run: "process_mono identity_operation no_current_tick 0 [0, 4, 0] [12, 16, 20] 4 example_mono_state
            = Inr st'"
    and new: "events st' = events example_mono_state @ new"
    and stores: "\<forall>c i. Store c i \<in> set new \<longleftrightarrow>
        c < length (container example_mono_state) \<and> 0 \<le> i \<and> i < 4"
    and frame: "\<forall>a. (\<forall>c < length (container example_mono_state). \<forall>i. 0 \<le> i \<and> i < 4 \<longrightarrow>
        a \<noteq> [12, 16, 20] ! c + i) \<longrightarrow> memory st' a = memory example_mono_state a"
    by blast
  have away: "\<forall>c < length (container example_mono_state). \<forall>i. 0 \<le> i \<and> i < 4 \<longrightarrow>
      20 \<noteq> [12, 16, 20 :: int] ! c + i \<and> 23 \<noteq> [12, 16, 20 :: int] ! c + i"
    by (auto simp: len less_Suc_eq numeral_2_eq_2)
  have "memory st' 20 = 0" and "memory st' 23 = 0"
    using frame away mem by auto
  moreover have "Store 2 0 \<notin> set (events st')" and "Store 1 3 \<in> set (events st')"
    using stores new by (simp_all add: len ev)
  ultimately show ?thesis using run by (intro exI [of _ st']) simp
qed

subsection \<open>Order of reads and writes, and the identity round trip\<close>

lemma loads_before_stores_no_Load:
  "\<forall>c i. Load c i \<notin> set evs \<Longrightarrow> loads_before_stores evs"
proof (induction evs)
  case Nil
  show ?case by simp
next
  case (Cons e evs)
  then show ?case
    by (cases e) (auto simp: list_all_iff split: event.split)
qed

lemma loads_before_stores_no_Store:
  "\<forall>c i. Store c i \<notin> set evs \<Longrightarrow> loads_before_stores evs"
proof (induction evs)
  case Nil
  show ?case by simp
next
  case (Cons e evs)
  then show ?case by (cases e) auto
qed

lemma loads_before_stores_append:
  assumes "loads_before_stores xs" and "loads_before_stores ys"
    and "\<forall>c i c'. Store c i \<in> set xs \<longrightarrow> Load c' i \<notin> set ys"
  shows "loads_before_stores (xs @ ys)"
  using assms
proof (induction xs)
  case Nil
  then show ?case by simp
next
  case (Cons e xs)
  show ?case
  proof (cases e)
    case (Store c i)
    with Cons.prems(3)
    have "list_all (\<lambda>e. case e of Load c' i' \<Rightarrow> i' \<noteq> i | _ \<Rightarrow> True) ys"
      by (auto simp: list_all_iff split: event.split)
    with Store Cons show ?thesis by simp
  next
    case (Load c i)
    with Cons show ?thesis by simp
  next
    case (Call c)
    with Cons show ?thesis by simp
  qed
qed

lemma loads_before_stores_mono_frame:
  "loads_before_stores (mono_frame_events channels instances i)"
  unfolding mono_frame_events_def
  by (rule loads_before_stores_append)
    (auto intro: loads_before_stores_no_Load loads_before_stores_no_Store)

lemma loads_before_stores_mono_frames:
  "loads_before_stores (concat (map (mono_frame_events channels instances) [0 .. int m - 1]))"
proof (induction m)
  case 0
  show ?case by simp
next
  case (Suc m)
  have "[0 .. int (Suc m) - 1] = [0 .. int m - 1] @ [int m]"
    by (simp add: upto_rec2)
  moreover have "\<forall>c i c'.
      Store c i \<in> set (concat (map (mono_frame_events channels instances) [0 .. int m - 1]))
      \<longrightarrow> Load c' i \<notin> set (mono_frame_events channels instances (int m))"
    by (auto simp: Store_in_mono_frame_events Load_in_mono_frame_events)
  ultimately show ?case
    using Suc loads_before_stores_mono_frame [of channels instances "int m"]
    by (simp add: loads_before_stores_append)
qed

lemma copy_the_input_shape [simp]:
  "list_ex generic_audio_sample_port (copy_the_input x ports)
     = list_ex generic_audio_sample_port ports"
  by (induction ports) (auto simp: copy_the_input_def split: port.split)

lemma first_sample_copy_the_input:
  "list_ex generic_audio_sample_port ports \<Longrightarrow> first_sample (copy_the_input x ports) = Some x"
proof (induction ports)
  case Nil
  then show ?case by simp
next
  case (Cons p ports)
  then show ?case by (cases p) (auto simp: copy_the_input_def)
qed

lemma read_back_the_output_Cons:
  "read_back_the_output (p # ports) out
     = read_back_the_output ports (case p of Audio_sample x \<Rightarrow> x | Other_port y \<Rightarrow> out)"
  by (simp add: read_back_the_output_def)

lemma read_back_all_equal:
  "\<forall>p \<in> set ports. \<forall>y. p = Audio_sample y \<longrightarrow> y = x \<Longrightarrow>
     read_back_the_output ports out
       = (if list_ex generic_audio_sample_port ports then x else out)"
proof (induction ports arbitrary: out)
  case Nil
  show ?case by (simp add: read_back_the_output_def)
next
  case (Cons p ports)
  then show ?case
    by (cases p) (auto simp: read_back_the_output_Cons)
qed

lemma read_back_copy_the_input:
  assumes "list_ex generic_audio_sample_port ports"
  shows "read_back_the_output (copy_the_input x ports) out = x"
proof -
  have "\<forall>p \<in> set (copy_the_input x ports). \<forall>y. p = Audio_sample y \<longrightarrow> y = x"
    by (auto simp: copy_the_input_def split: port.splits)
  from read_back_all_equal [OF this] assms show ?thesis by simp
qed

lemma process_0_identity:
  assumes "mono_per_sample_port_processor ref"
  shows "fst (process_0 identity_operation tick ind x ref) = x"
    and "mono_per_sample_port_processor (snd (process_0 identity_operation tick ind x ref))"
  using assms
  by (simp_all add: process_0_def identity_operation_def mono_per_sample_port_processor_def
      first_sample_copy_the_input read_back_copy_the_input Let_def)

lemma write_identity_shape:
  assumes "\<forall>ref \<in> set effects. mono_per_sample_port_processor ref"
  shows "\<forall>ref \<in> set (fst (write_the_output_channels identity_operation ct ind buf out i
                             channels c before effects st)).
           mono_per_sample_port_processor ref"
  using assms
proof (induction effects arbitrary: c before st)
  case Nil
  show ?case by simp
next
  case (Cons ref effects)
  obtain mem ev where st: "st = (mem, ev)" by (cases st)
  show ?case
    using Cons.prems Cons.IH
      process_0_identity(2)
        [of ref "map_option (\<lambda>f. f (before @ ref # effects)) ct" ind "buf ! c"]
    by (simp add: st case_prod_unfold)
qed

lemma write_identity_memory:
  assumes "\<forall>ref \<in> set effects. mono_per_sample_port_processor ref"
    and "\<forall>d d'. c \<le> d \<and> d < d' \<and> d' < min channels (c + length effects)
           \<longrightarrow> out ! d + i \<noteq> out ! d' + i"
    and "c \<le> d0" and "d0 < min channels (c + length effects)"
  shows "fst (snd (write_the_output_channels identity_operation ct ind buf out i channels c
                     before effects (mem, ev))) (out ! d0 + i) = buf ! d0"
  using assms
proof (induction effects arbitrary: c before mem ev)
  case Nil
  then show ?case by simp
next
  case (Cons ref effects)
  from Cons.prems(3,4) have c: "c < channels" by simp
  let ?tick = "map_option (\<lambda>f. f (before @ ref # effects)) ct"
  let ?ref' = "snd (process_0 identity_operation ?tick ind (buf ! c) ref)"
  have y: "fst (process_0 identity_operation ?tick ind (buf ! c) ref) = buf ! c"
    using Cons.prems(1) by (simp add: process_0_identity(1))
  let ?mem = "mem(out ! c + i := buf ! c)"
  let ?ev = "ev @ [Call c, Store c i]"
  have unfold: "fst (snd (write_the_output_channels identity_operation ct ind buf out i
        channels c before (ref # effects) (mem, ev)))
      = fst (snd (write_the_output_channels identity_operation ct ind buf out i
        channels (Suc c) (before @ [?ref']) effects (?mem, ?ev)))"
    using c y by (simp add: case_prod_unfold)
  show ?case
  proof (cases "d0 = c")
    case True
    have away: "\<forall>d. Suc c \<le> d \<and> d < min channels (Suc c + length effects)
        \<longrightarrow> out ! c + i \<noteq> out ! d + i"
      using Cons.prems(2) by simp
    have "fst (snd (write_the_output_channels identity_operation ct ind buf out i
        channels c before (ref # effects) (mem, ev))) (out ! c + i)
      = fst (snd (write_the_output_channels identity_operation ct ind buf out i
        channels (Suc c) (before @ [?ref']) effects (?mem, ?ev))) (out ! c + i)"
      by (simp only: unfold)
    also have "\<dots> = ?mem (out ! c + i)"
      using away by (rule write_the_output_channels_memory)
    also have "\<dots> = buf ! c" by simp
    finally show ?thesis unfolding True .
  next
    case False
    with Cons.prems(3) have p3: "Suc c \<le> d0" by simp
    have p4: "d0 < min channels (Suc c + length effects)"
      using Cons.prems(4) by simp
    have p1: "\<forall>ref \<in> set effects. mono_per_sample_port_processor ref"
      using Cons.prems(1) by simp
    have p2: "\<forall>d d'. Suc c \<le> d \<and> d < d' \<and> d' < min channels (Suc c + length effects)
           \<longrightarrow> out ! d + i \<noteq> out ! d' + i"
      using Cons.prems(2) by simp
    have "fst (snd (write_the_output_channels identity_operation ct ind buf out i
        channels (Suc c) (before @ [?ref']) effects (?mem, ?ev))) (out ! d0 + i) = buf ! d0"
      using p1 p2 p3 p4 by (rule Cons.IH)
    then show ?thesis by (simp only: unfold)
  qed
qed

lemma mono_frame_identity_shape:
  assumes "\<forall>ref \<in> set (container st). mono_per_sample_port_processor ref"
  shows "\<forall>ref \<in> set (container (mono_frame identity_operation current_tick ind inp out
                                   channels i st)).
           mono_per_sample_port_processor ref"
  using write_identity_shape [OF assms,
      of current_tick ind
      "map (\<lambda>c. memory st (inp ! c + i)) [0 ..< channels]" out i channels 0 "[]"
      "(memory st, events st @ map (\<lambda>c. Load c i) [0 ..< channels])"]
  by (simp add: mono_frame_def Let_def case_prod_unfold)

lemma mono_frame_identity_memory:
  assumes "\<forall>ref \<in> set (container st). mono_per_sample_port_processor ref"
    and "channels \<le> length (container st)"
    and "\<forall>d d'. d < d' \<and> d' < channels \<longrightarrow> out ! d + i \<noteq> out ! d' + i"
    and "d0 < channels"
  shows "memory (mono_frame identity_operation current_tick ind inp out channels i st)
           (out ! d0 + i) = memory st (inp ! d0 + i)"
proof -
  let ?buf = "map (\<lambda>c. memory st (inp ! c + i)) [0 ..< channels]"
  have m: "min channels (0 + length (container st)) = channels"
    using assms(2) by simp
  have inj: "\<forall>d d'. 0 \<le> d \<and> d < d' \<and> d' < min channels (0 + length (container st))
       \<longrightarrow> out ! d + i \<noteq> out ! d' + i"
    using assms(3) unfolding m by blast
  have d0: "0 \<le> d0" "d0 < min channels (0 + length (container st))"
    using assms(4) unfolding m by simp_all
  have "fst (snd (write_the_output_channels identity_operation current_tick ind ?buf out i
          channels 0 [] (container st)
          (memory st, events st @ map (\<lambda>c. Load c i) [0 ..< channels])))
        (out ! d0 + i) = ?buf ! d0"
    using assms(1) inj d0 by (rule write_identity_memory)
  moreover have "?buf ! d0 = memory st (inp ! d0 + i)"
    using assms(4) by simp
  ultimately show ?thesis
    by (simp add: mono_frame_def Let_def case_prod_unfold)
qed

lemma separate_apart:
  assumes "separate n p q" and "0 \<le> i" and "i < n" and "0 \<le> j" and "j < n"
  shows "p + i \<noteq> q + j"
  using assms by (auto simp: separate_def)

lemma mono_identity_roundtrip:
  fixes st :: "('a, ('s, 'a, 'b) effect list) audio_state"
  assumes shapes: "\<forall>ref \<in> set (container st). mono_per_sample_port_processor ref"
    and enough: "length inp \<le> length (container st)"
    and eq: "length inp = length out"
    and reused: "reused_buffers inp out n"
    and c: "c < length inp" and i: "0 \<le> i" "i < n"
  shows "memory (for_frames (mono_frame identity_operation current_tick ind inp out (length inp))
                   0 n st) (out ! c + i) = memory st (inp ! c + i)"
proof -
  let ?ch = "length inp"
  let ?body = "mono_frame identity_operation current_tick ind inp out ?ch"
  let ?I = "\<lambda>j s. length (container s) = length (container st)
      \<and> (\<forall>ref \<in> set (container s). mono_per_sample_port_processor ref)
      \<and> (\<forall>c i. c < ?ch \<and> 0 \<le> i \<and> i < j \<longrightarrow> memory s (out ! c + i) = memory st (inp ! c + i))
      \<and> (\<forall>c i. c < ?ch \<and> j \<le> i \<and> i < n \<longrightarrow> memory s (inp ! c + i) = memory st (inp ! c + i))"
  have out_out: "\<And>d d' j j'. d < ?ch \<Longrightarrow> d' < ?ch \<Longrightarrow> d \<noteq> d' \<Longrightarrow> 0 \<le> j \<Longrightarrow> j < n
      \<Longrightarrow> 0 \<le> j' \<Longrightarrow> j' < n \<Longrightarrow> out ! d + j \<noteq> out ! d' + j'"
    using reused eq by (auto simp: reused_buffers_def dest!: separate_apart)
  have out_in: "\<And>d c j j'. d < ?ch \<Longrightarrow> c < ?ch \<Longrightarrow> j \<noteq> j' \<Longrightarrow> 0 \<le> j \<Longrightarrow> j < n
      \<Longrightarrow> 0 \<le> j' \<Longrightarrow> j' < n \<Longrightarrow> out ! d + j \<noteq> inp ! c + j'"
  proof -
    fix d c j j' assume a: "d < ?ch" "c < ?ch" "j \<noteq> j'" "0 \<le> j" "j < n" "0 \<le> j'" "j' < n"
    from reused eq a(1,2) have "out ! d = inp ! c \<or> separate n (out ! d) (inp ! c)"
      by (simp add: reused_buffers_def)
    then show "out ! d + j \<noteq> inp ! c + j'"
    proof
      assume "out ! d = inp ! c" with a(3) show ?thesis by simp
    next
      assume "separate n (out ! d) (inp ! c)"
      then show ?thesis using a(4-7) by (rule separate_apart)
    qed
  qed
  have "0 \<le> n" using i by simp
  have "?I n (for_frames ?body 0 n st)"
  proof (rule for_frames_invariant [where I = ?I])
    show "?I 0 st" using shapes by auto
    show "0 \<le> n" by fact
  next
    fix j and s :: "('a, ('s, 'a, 'b) effect list) audio_state"
    assume j: "0 \<le> j" "j < n" and I: "?I j s"
    let ?s' = "?body j s"
    from I have len: "length (container s) = length (container st)"
      and sh: "\<forall>ref \<in> set (container s). mono_per_sample_port_processor ref"
      and finished: "\<And>c i. c < ?ch \<Longrightarrow> 0 \<le> i \<Longrightarrow> i < j \<Longrightarrow>
          memory s (out ! c + i) = memory st (inp ! c + i)"
      and todo: "\<And>c i. c < ?ch \<Longrightarrow> j \<le> i \<Longrightarrow> i < n \<Longrightarrow>
          memory s (inp ! c + i) = memory st (inp ! c + i)"
      by auto
    have en: "?ch \<le> length (container s)" using enough len by simp
    have inj: "\<forall>d d'. d < d' \<and> d' < ?ch \<longrightarrow> out ! d + j \<noteq> out ! d' + j"
    proof (intro allI impI)
      fix d d' assume "d < d' \<and> d' < ?ch"
      then have "d < ?ch" "d' < ?ch" "d \<noteq> d'" by simp_all
      then show "out ! d + j \<noteq> out ! d' + j" using j j by (rule out_out)
    qed
    have written: "\<And>d. d < ?ch \<Longrightarrow> memory ?s' (out ! d + j) = memory s (inp ! d + j)"
      using sh en inj by (rule mono_frame_identity_memory)
    have kept: "\<And>a. (\<forall>d < ?ch. a \<noteq> out ! d + j) \<Longrightarrow> memory ?s' a = memory s a"
    proof -
      fix a assume "\<forall>d < ?ch. a \<noteq> out ! d + j"
      then have "\<forall>d < min ?ch (length (container s)). a \<noteq> out ! d + j"
        using en by simp
      then show "memory ?s' a = memory s a" by (rule mono_frame_memory)
    qed
    have 1: "length (container ?s') = length (container st)"
      using len by (simp add: mono_frame_container)
    have 2: "\<forall>ref \<in> set (container ?s'). mono_per_sample_port_processor ref"
      using sh by (rule mono_frame_identity_shape)
    have 3: "\<forall>c i. c < ?ch \<and> 0 \<le> i \<and> i < j + 1 \<longrightarrow>
        memory ?s' (out ! c + i) = memory st (inp ! c + i)"
    proof (intro allI impI)
      fix c i assume ci: "c < ?ch \<and> 0 \<le> i \<and> i < j + 1"
      show "memory ?s' (out ! c + i) = memory st (inp ! c + i)"
      proof (cases "i = j")
        case True
        with ci written [of c] todo [of c j] j show ?thesis by simp
      next
        case False
        with ci have lt: "i < j" by simp
        have "\<forall>d < ?ch. out ! c + i \<noteq> out ! d + j"
        proof (intro allI impI)
          fix d assume d: "d < ?ch"
          show "out ! c + i \<noteq> out ! d + j"
          proof (cases "d = c")
            case True
            with lt show ?thesis by simp
          next
            case False
            then have "c \<noteq> d" by simp
            with ci d lt j show ?thesis by (intro out_out) simp_all
          qed
        qed
        then have "memory ?s' (out ! c + i) = memory s (out ! c + i)" by (rule kept)
        with ci lt finished [of c i] show ?thesis by simp
      qed
    qed
    have 4: "\<forall>c i. c < ?ch \<and> j + 1 \<le> i \<and> i < n \<longrightarrow>
        memory ?s' (inp ! c + i) = memory st (inp ! c + i)"
    proof (intro allI impI)
      fix c i assume ci: "c < ?ch \<and> j + 1 \<le> i \<and> i < n"
      have "\<forall>d < ?ch. inp ! c + i \<noteq> out ! d + j"
      proof (intro allI impI)
        fix d assume d: "d < ?ch"
        have "out ! d + j \<noteq> inp ! c + i"
          using d ci j by (intro out_in) simp_all
        then show "inp ! c + i \<noteq> out ! d + j" by simp
      qed
      then have "memory ?s' (inp ! c + i) = memory s (inp ! c + i)" by (rule kept)
      with ci todo [of c i] show "memory ?s' (inp ! c + i) = memory st (inp ! c + i)"
        by simp
    qed
    from 1 2 3 4 show "?I (j + 1) ?s'" by blast
  qed
  with c i show ?thesis by blast
qed

text \<open>
  C2. In the mono protocol (equal channel counts, below \<open>2^31\<close>), whatever the
  processing operation: within a frame no input sample is read after an output sample
  of that frame was written, and every input sample \<open>in[c][i]\<close> of every frame is read.
  Consequently, with the identity as processing operation, an effect with a sample port
  on each side for every channel, and output spans that are input spans or share no
  sample with them, every output sample \<open>out[c][i]\<close> holds after the call what the
  input sample \<open>in[c][i]\<close> held before it.
\<close>

theorem mono_copy_before_write:
  fixes st :: "('a, ('s, 'a, 'b) effect list) audio_state"
  assumes "length inp = length out" and "length inp < 2 ^ 31"
  shows "\<exists>st' new.
           process_mono call current_tick indeterminate inp out n st = Inr st'
           \<and> events st' = events st @ new
           \<and> loads_before_stores new
           \<and> (\<forall>c i. c < length inp \<and> 0 \<le> i \<and> i < n \<longrightarrow> Load c i \<in> set new)
           \<and> (call = identity_operation
                \<and> length inp \<le> length (container st)
                \<and> (\<forall>ref \<in> set (container st). mono_per_sample_port_processor ref)
                \<and> reused_buffers inp out n
                \<longrightarrow> (\<forall>c i. c < length inp \<and> 0 \<le> i \<and> i < n \<longrightarrow>
                       memory st' (out ! c + i) = memory st (inp ! c + i)))"
proof -
  let ?k = "length (container st)"
  let ?st' = "for_frames (mono_frame call current_tick indeterminate inp out (length inp)) 0 n st"
  let ?new = "concat (map (mono_frame_events (length inp) ?k) [0 .. n - 1])"
  have A: "process_mono call current_tick indeterminate inp out n st = Inr ?st'"
    using assms by (rule process_mono_frames)
  have B: "events ?st' = events st @ ?new"
    using mono_frames_trace [of call current_tick indeterminate inp out "length inp" n st]
    by simp
  have C: "loads_before_stores ?new"
  proof (cases "0 \<le> n")
    case True
    then have "n = int (nat n)" by simp
    then show ?thesis
      using loads_before_stores_mono_frames [of "length inp" ?k "nat n"] by simp
  next
    case False
    then show ?thesis by simp
  qed
  have D: "\<forall>c i. c < length inp \<and> 0 \<le> i \<and> i < n \<longrightarrow> Load c i \<in> set ?new"
    by (auto simp: Load_in_mono_frame_events)
  have E: "call = identity_operation
        \<and> length inp \<le> length (container st)
        \<and> (\<forall>ref \<in> set (container st). mono_per_sample_port_processor ref)
        \<and> reused_buffers inp out n
        \<longrightarrow> (\<forall>c i. c < length inp \<and> 0 \<le> i \<and> i < n \<longrightarrow>
               memory ?st' (out ! c + i) = memory st (inp ! c + i))"
  proof (intro impI allI)
    fix c i
    assume h: "call = identity_operation
        \<and> length inp \<le> length (container st)
        \<and> (\<forall>ref \<in> set (container st). mono_per_sample_port_processor ref)
        \<and> reused_buffers inp out n"
      and ci: "c < length inp \<and> 0 \<le> i \<and> i < n"
    from h have sh: "\<forall>ref \<in> set (container st). mono_per_sample_port_processor ref"
      and en: "length inp \<le> length (container st)"
      and re: "reused_buffers inp out n" and id: "call = identity_operation"
      by simp_all
    from ci have c: "c < length inp" and i: "0 \<le> i" "i < n" by simp_all
    from mono_identity_roundtrip [OF sh en assms(1) re c i]
    show "memory ?st' (out ! c + i) = memory st (inp ! c + i)"
      unfolding id .
  qed
  show ?thesis
    by (intro exI [of _ ?st'] exI [of _ ?new] conjI) (rule A B C D E)+
qed

theorem mono_copy_before_write_witness:
  "\<exists>st'. process_mono identity_operation no_current_tick 0 [0, 4] [4, 0] 4 example_mono_state
            = Inr st'
         \<and> map (memory st') [4, 5, 6, 7] = [1, 2, 3, 4]
         \<and> map (memory st') [0, 1, 2, 3] = [5, 6, 7, 8]
         \<and> loads_before_stores (events st')"
proof -
  have len: "length (container example_mono_state) = 2"
    and ev: "events example_mono_state = []"
    by (simp_all add: example_mono_state_def)
  have sh: "\<forall>ref \<in> set (container example_mono_state). mono_per_sample_port_processor ref"
    by (simp add: example_mono_state_def mono_per_sample_port_processor_def)
  have re: "reused_buffers [0, 4] [4, 0] 4"
    by (simp add: reused_buffers_def separate_def All_less_Suc numeral_2_eq_2)
  have "length [0, 4 :: int] = length [4, 0 :: int]" and "length [0, 4 :: int] < 2 ^ 31"
    by simp_all
  from mono_copy_before_write [OF this, of identity_operation no_current_tick 0 4
      example_mono_state]
  obtain st' new where
    run: "process_mono identity_operation no_current_tick 0 [0, 4] [4, 0] 4 example_mono_state
            = Inr st'"
    and new: "events st' = events example_mono_state @ new"
    and ord: "loads_before_stores new"
    and same: "identity_operation = identity_operation
        \<and> length [0, 4 :: int] \<le> length (container example_mono_state)
        \<and> (\<forall>ref \<in> set (container example_mono_state). mono_per_sample_port_processor ref)
        \<and> reused_buffers [0, 4] [4, 0] 4
        \<longrightarrow> (\<forall>c i. c < length [0, 4 :: int] \<and> 0 \<le> i \<and> i < 4 \<longrightarrow>
               memory st' ([4, 0] ! c + i) = memory example_mono_state ([0, 4] ! c + i))"
    by blast
  from same sh re len
  have eq: "\<And>c i. c < 2 \<Longrightarrow> 0 \<le> i \<Longrightarrow> i < 4 \<Longrightarrow>
      memory st' ([4, 0] ! c + i) = memory example_mono_state ([0, 4] ! c + i)"
    by simp
  have "memory st' 4 = 1" "memory st' 5 = 2" "memory st' 6 = 3" "memory st' 7 = 4"
    using eq [of 0 0] eq [of 0 1] eq [of 0 2] eq [of 0 3]
    by (simp_all add: example_mono_state_def example_memory_def)
  moreover have "memory st' 0 = 5" "memory st' 1 = 6" "memory st' 2 = 7" "memory st' 3 = 8"
    using eq [of 1 0] eq [of 1 1] eq [of 1 2] eq [of 1 3]
    by (simp_all add: example_mono_state_def example_memory_def)
  moreover have "loads_before_stores (events st')"
    using ord new ev by simp
  ultimately show ?thesis using run by (intro exI [of _ st']) simp
qed

subsection \<open>The poly adapter\<close>

lemma copy_inputs_shape:
  "map generic_audio_sample_port (fst (copy_inputs mem inp i k ports))
     = map generic_audio_sample_port ports"
proof (induction ports arbitrary: k)
  case Nil
  show ?case by simp
next
  case (Cons p ports)
  then show ?case by (cases p) (simp_all add: case_prod_unfold)
qed

lemma copy_inputs_other:
  "filter (\<lambda>p. \<not> generic_audio_sample_port p) (fst (copy_inputs mem inp i k ports))
     = filter (\<lambda>p. \<not> generic_audio_sample_port p) ports"
proof (induction ports arbitrary: k)
  case Nil
  show ?case by simp
next
  case (Cons p ports)
  then show ?case by (cases p) (simp_all add: case_prod_unfold)
qed

lemma copy_inputs_audio:
  assumes "m < length (filter generic_audio_sample_port ports)"
  shows "filter generic_audio_sample_port (fst (copy_inputs mem inp i k ports)) ! m
           = (if k + m < length inp then Audio_sample (mem (inp ! (k + m) + i))
              else filter generic_audio_sample_port ports ! m)"
  using assms
proof (induction ports arbitrary: k m)
  case Nil
  then show ?case by simp
next
  case (Cons p ports)
  show ?case
  proof (cases p)
    case (Other_port y)
    with Cons show ?thesis by (simp add: case_prod_unfold)
  next
    case (Audio_sample x)
    show ?thesis
    proof (cases m)
      case 0
      with Audio_sample show ?thesis by (simp add: case_prod_unfold)
    next
      case (Suc m')
      with Cons.prems Audio_sample
      have m': "m' < length (filter generic_audio_sample_port ports)" by simp
      show ?thesis
      proof (cases "k < length inp")
        case True
        with Cons.IH [OF m', of "Suc k"] Audio_sample Suc show ?thesis
          by (simp add: case_prod_unfold)
      next
        case False
        with Cons.IH [OF m', of k] Audio_sample Suc show ?thesis
          by (simp add: case_prod_unfold)
      qed
    qed
  qed
qed

lemma copy_inputs_events:
  "snd (copy_inputs mem inp i k ports)
     = map (\<lambda>m. Load m i)
         [k ..< min (length inp) (k + length (filter generic_audio_sample_port ports))]"
proof (induction ports arbitrary: k)
  case Nil
  show ?case by simp
next
  case (Cons p ports)
  show ?case
  proof (cases p)
    case (Other_port y)
    with Cons show ?thesis by (simp add: case_prod_unfold)
  next
    case (Audio_sample x)
    show ?thesis
    proof (cases "k < length inp")
      case True
      then have "[k ..< min (length inp)
            (k + length (filter generic_audio_sample_port (p # ports)))]
          = k # [Suc k ..< min (length inp)
            (Suc k + length (filter generic_audio_sample_port ports))]"
        using Audio_sample by (simp add: upt_conv_Cons)
      with True Cons.IH [of "Suc k"] Audio_sample show ?thesis
        by (simp add: case_prod_unfold)
    next
      case False
      with Cons.IH [of k] Audio_sample show ?thesis
        by (simp add: case_prod_unfold)
    qed
  qed
qed

lemma copy_outputs_events:
  "snd (copy_outputs out i k ports (mem, ev))
     = ev @ map (\<lambda>m. Store m i)
         [k ..< min (length out) (k + length (filter generic_audio_sample_port ports))]"
proof (induction ports arbitrary: k mem ev)
  case Nil
  show ?case by simp
next
  case (Cons p ports)
  show ?case
  proof (cases p)
    case (Other_port y)
    with Cons show ?thesis by simp
  next
    case (Audio_sample x)
    show ?thesis
    proof (cases "k < length out")
      case True
      then have "[k ..< min (length out)
            (k + length (filter generic_audio_sample_port (p # ports)))]
          = k # [Suc k ..< min (length out)
            (Suc k + length (filter generic_audio_sample_port ports))]"
        using Audio_sample by (simp add: upt_conv_Cons)
      with True Cons.IH [of "Suc k"] Audio_sample show ?thesis by simp
    next
      case False
      with Cons.IH [of k] Audio_sample show ?thesis by simp
    qed
  qed
qed

lemma copy_outputs_memory:
  assumes "\<forall>m. k \<le> m \<and> m < min (length out) (k + length (filter generic_audio_sample_port ports))
             \<longrightarrow> a \<noteq> out ! m + i"
  shows "fst (copy_outputs out i k ports (mem, ev)) a = mem a"
  using assms
proof (induction ports arbitrary: k mem ev)
  case Nil
  show ?case by simp
next
  case (Cons p ports)
  show ?case
  proof (cases p)
    case (Other_port y)
    with Cons show ?thesis by simp
  next
    case (Audio_sample x)
    show ?thesis
    proof (cases "k < length out")
      case True
      with Cons.prems Audio_sample have here: "a \<noteq> out ! k + i" by simp
      have "\<forall>m. Suc k \<le> m \<and> m < min (length out)
          (Suc k + length (filter generic_audio_sample_port ports)) \<longrightarrow> a \<noteq> out ! m + i"
        using Cons.prems Audio_sample by simp
      from Cons.IH [OF this] here True Audio_sample show ?thesis by simp
    next
      case False
      then have "\<forall>m. k \<le> m \<and> m < min (length out)
          (k + length (filter generic_audio_sample_port ports)) \<longrightarrow> a \<noteq> out ! m + i"
        by simp
      from Cons.IH [OF this] False Audio_sample show ?thesis by simp
    qed
  qed
qed

lemma copy_outputs_value:
  assumes "\<forall>m m'. k \<le> m \<and> m < m'
             \<and> m' < min (length out) (k + length (filter generic_audio_sample_port ports))
             \<longrightarrow> out ! m + i \<noteq> out ! m' + i"
    and "k \<le> m0"
    and "m0 < min (length out) (k + length (filter generic_audio_sample_port ports))"
  shows "Audio_sample (fst (copy_outputs out i k ports (mem, ev)) (out ! m0 + i))
           = filter generic_audio_sample_port ports ! (m0 - k)"
  using assms
proof (induction ports arbitrary: k mem ev)
  case Nil
  then show ?case by simp
next
  case (Cons p ports)
  show ?case
  proof (cases p)
    case (Other_port y)
    with Cons.prems have
      "\<forall>m m'. k \<le> m \<and> m < m'
         \<and> m' < min (length out) (k + length (filter generic_audio_sample_port ports))
         \<longrightarrow> out ! m + i \<noteq> out ! m' + i"
      and "m0 < min (length out) (k + length (filter generic_audio_sample_port ports))"
      by simp_all
    from Cons.IH [OF this(1) Cons.prems(2) this(2)] Other_port show ?thesis by simp
  next
    case (Audio_sample x)
    from Cons.prems(2,3) have k: "k < length out" by simp
    show ?thesis
    proof (cases "m0 = k")
      case True
      have "\<forall>m. Suc k \<le> m \<and> m < min (length out)
          (Suc k + length (filter generic_audio_sample_port ports))
          \<longrightarrow> out ! k + i \<noteq> out ! m + i"
        using Cons.prems(1) Audio_sample by simp
      from copy_outputs_memory [OF this] True k Audio_sample show ?thesis by simp
    next
      case False
      with Cons.prems(2) have p2: "Suc k \<le> m0" by simp
      have p3: "m0 < min (length out) (Suc k + length (filter generic_audio_sample_port ports))"
        using Cons.prems(3) Audio_sample by simp
      have p1: "\<forall>m m'. Suc k \<le> m \<and> m < m'
          \<and> m' < min (length out) (Suc k + length (filter generic_audio_sample_port ports))
          \<longrightarrow> out ! m + i \<noteq> out ! m' + i"
        using Cons.prems(1) Audio_sample by simp
      from p2 have "m0 - k = Suc (m0 - Suc k)" by simp
      with Cons.IH [OF p1 p2 p3] k Audio_sample show ?thesis by simp
    qed
  qed
qed

lemma copy_inputs_nth_other:
  assumes "p < length ports" and "\<not> generic_audio_sample_port (ports ! p)"
  shows "fst (copy_inputs mem inp i k ports) ! p = ports ! p"
  using assms
proof (induction ports arbitrary: k p)
  case Nil
  then show ?case by simp
next
  case (Cons q ports)
  show ?case
  proof (cases p)
    case 0
    with Cons.prems show ?thesis by (cases q) (simp_all add: case_prod_unfold)
  next
    case (Suc p')
    with Cons.prems have "p' < length ports" "\<not> generic_audio_sample_port (ports ! p')"
      by simp_all
    from Cons.IH [OF this] Suc show ?thesis
      by (cases q) (simp_all add: case_prod_unfold)
  qed
qed

lemma matches_predicate_i_fun: "matches_predicate_i T P = (\<lambda>i. P (T ! i))"
  by (simp add: fun_eq_iff matches_predicate_i_def)

lemma fields_by_index_map:
  "fields_n T P = map (\<lambda>m. T ! nat m) (index_map T P)"
proof -
  have "filter P (map (nth T) [0 ..< length T])
      = map (nth T) (filter (P \<circ> nth T) [0 ..< length T])"
    by (rule filter_map)
  then have "filter P T = map (nth T) (filter (\<lambda>i. P (T ! i)) [0 ..< length T])"
    by (simp add: map_nth comp_def)
  then show ?thesis
    by (simp add: fields_n_def index_map_def indices_n_def indices_def
        matches_predicate_i_fun comp_def)
qed

lemma size_n_fields: "size_n T P = length (fields_n T P)"
  by (simp add: fields_by_index_map size_n_def index_map_def)

lemma fields_nth:
  "k < size_n T P \<Longrightarrow> fields_n T P ! k = T ! nat (index_map T P ! k)"
  by (simp add: fields_by_index_map size_n_def index_map_def)

lemma index_map_same_shape:
  assumes "map P T' = map P T"
  shows "index_map T' P = index_map T P"
proof -
  from assms have len: "length T' = length T" by (rule map_eq_imp_length_eq)
  have "\<And>i. i < length T \<Longrightarrow> P (T' ! i) = P (T ! i)"
  proof -
    fix i assume i: "i < length T"
    with len have "map P T' ! i = P (T' ! i)" "map P T ! i = P (T ! i)" by simp_all
    with assms show "P (T' ! i) = P (T ! i)" by simp
  qed
  then have "filter (\<lambda>i. P (T' ! i)) [0 ..< length T] = filter (\<lambda>i. P (T ! i)) [0 ..< length T]"
    by (intro filter_cong) simp_all
  with len show ?thesis
    by (simp add: index_map_def indices_n_def indices_def matches_predicate_i_fun)
qed

lemma copy_inputs_by_index_map:
  assumes "k < size_n ports generic_audio_sample_port"
  shows "fst (copy_inputs mem inp i 0 ports) ! nat (index_map ports generic_audio_sample_port ! k)
           = (if k < length inp then Audio_sample (mem (inp ! k + i))
              else ports ! nat (index_map ports generic_audio_sample_port ! k))"
proof -
  let ?ins' = "fst (copy_inputs mem inp i 0 ports)"
  have shape: "map generic_audio_sample_port ?ins' = map generic_audio_sample_port ports"
    by (rule copy_inputs_shape)
  then have im: "index_map ?ins' generic_audio_sample_port
      = index_map ports generic_audio_sample_port"
    by (rule index_map_same_shape)
  then have sz: "size_n ?ins' generic_audio_sample_port = size_n ports generic_audio_sample_port"
    by (simp add: size_n_def index_map_def)
  from assms have k: "k < length (filter generic_audio_sample_port ports)"
    by (simp add: size_n_fields fields_n_def)
  have "?ins' ! nat (index_map ports generic_audio_sample_port ! k)
      = fields_n ?ins' generic_audio_sample_port ! k"
    using assms sz im by (simp add: fields_nth)
  also have "\<dots> = (if 0 + k < length inp then Audio_sample (mem (inp ! (0 + k) + i))
      else filter generic_audio_sample_port ports ! k)"
    unfolding fields_n_def using k by (rule copy_inputs_audio)
  also have "filter generic_audio_sample_port ports ! k
      = ports ! nat (index_map ports generic_audio_sample_port ! k)"
    using fields_nth [OF assms] by (simp add: fields_n_def)
  finally show ?thesis by simp
qed

lemma poly_frame_unfold:
  "poly_frame call current_tick inp out i st =
     (let ins' = fst (copy_inputs (memory st) inp i 0 (ins (container st)));
          implementation' =
            call (map_option (\<lambda>f. f ((container st)\<lparr>ins := ins'\<rparr>)) current_tick)
              ((container st)\<lparr>ins := ins'\<rparr>);
          copied = copy_outputs out i 0 (outs implementation')
                     (memory st,
                      events st @ snd (copy_inputs (memory st) inp i 0 (ins (container st)))
                        @ [Call 0])
      in \<lparr>memory = fst copied, container = implementation', events = snd copied\<rparr>)"
  by (simp add: poly_frame_def Let_def case_prod_unfold)

lemma poly_frame_calls:
  "length (filter (\<lambda>e. e = Call 0) (events (poly_frame call current_tick inp out i st)))
     = Suc (length (filter (\<lambda>e. e = Call 0) (events st)))"
  by (simp add: poly_frame_unfold Let_def copy_outputs_events copy_inputs_events
      filter_map comp_def)

lemma process_poly_calls:
  fixes st :: "('a, ('s, 'a, 'b) effect) audio_state"
  shows "length (filter (\<lambda>e. e = Call 0) (events (process_poly call current_tick inp out n st)))
     = length (filter (\<lambda>e. e = Call 0) (events st)) + nat n"
proof (cases "0 \<le> n")
  case True
  let ?I = "\<lambda>j s. length (filter (\<lambda>e. e = Call 0) (events s))
      = length (filter (\<lambda>e. e = Call 0) (events st)) + nat j"
  have "?I n (for_frames (poly_frame call current_tick inp out) 0 n st)"
  proof (rule for_frames_invariant [where I = ?I])
    show "?I 0 st" by simp
    show "0 \<le> n" by fact
  next
    fix j and s :: "('a, ('s, 'a, 'b) effect) audio_state"
    assume "0 \<le> j" and "j < n" and "?I j s"
    then show "?I (j + 1) (poly_frame call current_tick inp out j s)"
      by (simp add: poly_frame_calls nat_add_distrib)
  qed
  then show ?thesis by (simp add: process_poly_def)
next
  case False
  then show ?thesis by (simp add: process_poly_def for_frames_done)
qed

lemma poly_frame_step:
  fixes st :: "('a, ('s, 'a, 'b) effect) audio_state"
  shows "\<exists>ins' implementation'.
     length ins' = length (ins (container st))
     \<and> (\<forall>k < size_n (ins (container st)) generic_audio_sample_port.
           ins' ! nat (index_map (ins (container st)) generic_audio_sample_port ! k)
             = (if k < length inp then Audio_sample (memory st (inp ! k + i))
                else ins (container st)
                       ! nat (index_map (ins (container st)) generic_audio_sample_port ! k)))
     \<and> (\<forall>p < length (ins (container st)).
           \<not> generic_audio_sample_port (ins (container st) ! p)
           \<longrightarrow> ins' ! p = ins (container st) ! p)
     \<and> implementation'
         = call (map_option (\<lambda>f. f ((container st)\<lparr>ins := ins'\<rparr>)) current_tick)
             ((container st)\<lparr>ins := ins'\<rparr>)
     \<and> container (poly_frame call current_tick inp out i st) = implementation'
     \<and> events (poly_frame call current_tick inp out i st)
         = events st
           @ map (\<lambda>k. Load k i)
               [0 ..< min (length inp) (size_n (ins (container st)) generic_audio_sample_port)]
           @ [Call 0]
           @ map (\<lambda>k. Store k i)
               [0 ..< min (length out) (size_n (outs implementation') generic_audio_sample_port)]
     \<and> (\<forall>a. (\<forall>k < min (length out) (size_n (outs implementation') generic_audio_sample_port).
                 a \<noteq> out ! k + i)
              \<longrightarrow> memory (poly_frame call current_tick inp out i st) a = memory st a)
     \<and> ((\<forall>k k'. k < k'
             \<and> k' < min (length out) (size_n (outs implementation') generic_audio_sample_port)
             \<longrightarrow> out ! k \<noteq> out ! k')
          \<longrightarrow> (\<forall>k < min (length out) (size_n (outs implementation') generic_audio_sample_port).
                 Audio_sample (memory (poly_frame call current_tick inp out i st) (out ! k + i))
                   = outs implementation'
                       ! nat (index_map (outs implementation') generic_audio_sample_port ! k)))"
proof -
  let ?ins = "ins (container st)"
  let ?ins' = "fst (copy_inputs (memory st) inp i 0 ?ins)"
  let ?impl = "call (map_option (\<lambda>f. f ((container st)\<lparr>ins := ?ins'\<rparr>)) current_tick)
                 ((container st)\<lparr>ins := ?ins'\<rparr>)"
  let ?ev = "events st @ snd (copy_inputs (memory st) inp i 0 ?ins) @ [Call 0]"
  let ?M = "min (length out) (size_n (outs ?impl) generic_audio_sample_port)"
  let ?frame = "poly_frame call current_tick inp out i st"
  have na: "\<And>ports :: ('a, 'b) port list.
      length (filter generic_audio_sample_port ports) = size_n ports generic_audio_sample_port"
    by (simp add: size_n_fields fields_n_def)
  have mem: "memory ?frame = fst (copy_outputs out i 0 (outs ?impl) (memory st, ?ev))"
    and ev: "events ?frame = snd (copy_outputs out i 0 (outs ?impl) (memory st, ?ev))"
    by (simp_all add: poly_frame_unfold Let_def)
  have A: "length ?ins' = length ?ins"
    using copy_inputs_shape [of "memory st" inp i 0 ?ins] by (rule map_eq_imp_length_eq)
  have B: "\<forall>k < size_n ?ins generic_audio_sample_port.
      ?ins' ! nat (index_map ?ins generic_audio_sample_port ! k)
        = (if k < length inp then Audio_sample (memory st (inp ! k + i))
           else ?ins ! nat (index_map ?ins generic_audio_sample_port ! k))"
    by (simp add: copy_inputs_by_index_map)
  have C: "\<forall>p < length ?ins. \<not> generic_audio_sample_port (?ins ! p) \<longrightarrow> ?ins' ! p = ?ins ! p"
    by (simp add: copy_inputs_nth_other)
  have D: "?impl = ?impl" ..
  have E: "container ?frame = ?impl"
    by (simp add: poly_frame_unfold Let_def)
  have F: "events ?frame = events st
      @ map (\<lambda>k. Load k i) [0 ..< min (length inp) (size_n ?ins generic_audio_sample_port)]
      @ [Call 0] @ map (\<lambda>k. Store k i) [0 ..< ?M]"
    by (simp add: ev copy_outputs_events copy_inputs_events na)
  have G: "\<forall>a. (\<forall>k < ?M. a \<noteq> out ! k + i) \<longrightarrow> memory ?frame a = memory st a"
  proof (intro allI impI)
    fix a assume "\<forall>k < ?M. a \<noteq> out ! k + i"
    then have "\<forall>m. 0 \<le> m \<and> m < min (length out)
        (0 + length (filter generic_audio_sample_port (outs ?impl))) \<longrightarrow> a \<noteq> out ! m + i"
      by (simp add: na)
    from copy_outputs_memory [OF this] show "memory ?frame a = memory st a"
      by (simp add: mem)
  qed
  have H: "(\<forall>k k'. k < k' \<and> k' < ?M \<longrightarrow> out ! k \<noteq> out ! k')
      \<longrightarrow> (\<forall>k < ?M. Audio_sample (memory ?frame (out ! k + i))
             = outs ?impl ! nat (index_map (outs ?impl) generic_audio_sample_port ! k))"
  proof (intro allI impI)
    fix k assume d: "\<forall>k k'. k < k' \<and> k' < ?M \<longrightarrow> out ! k \<noteq> out ! k'" and k: "k < ?M"
    have p1: "\<forall>m m'. 0 \<le> m \<and> m < m' \<and> m' < min (length out)
        (0 + length (filter generic_audio_sample_port (outs ?impl)))
        \<longrightarrow> out ! m + i \<noteq> out ! m' + i"
      using d by (simp add: na)
    have p3: "k < min (length out) (0 + length (filter generic_audio_sample_port (outs ?impl)))"
      using k by (simp add: na)
    have "Audio_sample (fst (copy_outputs out i 0 (outs ?impl) (memory st, ?ev)) (out ! k + i))
        = filter generic_audio_sample_port (outs ?impl) ! (k - 0)"
      using p1 _ p3 by (rule copy_outputs_value) simp
    moreover have "filter generic_audio_sample_port (outs ?impl) ! k
        = outs ?impl ! nat (index_map (outs ?impl) generic_audio_sample_port ! k)"
      using k fields_nth [of k "outs ?impl" generic_audio_sample_port]
      by (simp add: fields_n_def)
    ultimately show "Audio_sample (memory ?frame (out ! k + i))
        = outs ?impl ! nat (index_map (outs ?impl) generic_audio_sample_port ! k)"
      by (simp add: mem)
  qed
  show ?thesis
    by (intro exI [of _ ?ins'] exI [of _ ?impl] conjI) (rule A B C D E F G H)+
qed

subsection \<open>The poly adapter over a whole call\<close>

lemma for_frames_last:
  "a \<le> n \<Longrightarrow> for_frames body a (n + 1) st = body n (for_frames body a n st)"
proof (induction body a n st rule: for_frames.induct)
  case (1 body i n st)
  show ?case
  proof (cases "i < n")
    case True
    then have "for_frames body i (n + 1) st = for_frames body (i + 1) (n + 1) (body i st)"
      by (simp add: for_frames_step)
    also have "\<dots> = body n (for_frames body (i + 1) n (body i st))"
      using True by (intro "1.IH") simp_all
    also have "for_frames body (i + 1) n (body i st) = for_frames body i n st"
      using True by (simp add: for_frames_step)
    finally show ?thesis .
  next
    case False
    with "1.prems" have "i = n" by simp
    then show ?thesis
      by (simp add: for_frames_step for_frames_done)
  qed
qed

lemma process_poly_step:
  "0 \<le> i \<Longrightarrow> process_poly call current_tick inp out (i + 1) st
     = poly_frame call current_tick inp out i (process_poly call current_tick inp out i st)"
  by (simp add: process_poly_def for_frames_last)

lemma process_poly_none:
  "n \<le> 0 \<Longrightarrow> process_poly call current_tick inp out n st = st"
  by (simp add: process_poly_def for_frames_done)

lemma copy_outputs_kept:
  assumes "\<forall>k < length out. a \<noteq> out ! k + i"
  shows "fst (copy_outputs out i 0 ports (mem, ev)) a = mem a"
proof -
  have "\<forall>m. 0 \<le> m \<and> m < min (length out)
      (0 + length (filter generic_audio_sample_port ports)) \<longrightarrow> a \<noteq> out ! m + i"
    using assms by simp
  then show ?thesis by (rule copy_outputs_memory)
qed

lemma poly_frame_kept:
  assumes "\<forall>k < length out. a \<noteq> out ! k + i"
  shows "memory (poly_frame call current_tick inp out i st) a = memory st a"
  by (simp add: poly_frame_unfold Let_def copy_outputs_kept [OF assms])

lemma poly_frame_events_grow:
  "\<exists>later. events (poly_frame call current_tick inp out i st) = events st @ later"
  by (simp add: poly_frame_unfold Let_def copy_outputs_events)

lemma process_poly_kept:
  fixes st :: "('a, ('s, 'a, 'b) effect) audio_state"
  assumes "0 \<le> m"
    and "\<forall>k < length out. \<forall>j. m \<le> j \<and> j < m + int d \<longrightarrow> a \<noteq> out ! k + j"
  shows "memory (process_poly call current_tick inp out (m + int d) st) a
           = memory (process_poly call current_tick inp out m st) a"
  using assms(2)
proof (induction d)
  case 0
  show ?case by simp
next
  case (Suc d)
  have step: "process_poly call current_tick inp out (m + int (Suc d)) st
      = poly_frame call current_tick inp out (m + int d)
          (process_poly call current_tick inp out (m + int d) st)"
    using process_poly_step [of "m + int d" call current_tick inp out st] assms(1)
    by (simp add: algebra_simps)
  have "\<forall>k < length out. a \<noteq> out ! k + (m + int d)"
    using Suc.prems by simp
  then have "memory (process_poly call current_tick inp out (m + int (Suc d)) st) a
      = memory (process_poly call current_tick inp out (m + int d) st) a"
    unfolding step by (rule poly_frame_kept)
  moreover have "\<forall>k < length out. \<forall>j. m \<le> j \<and> j < m + int d \<longrightarrow> a \<noteq> out ! k + j"
    using Suc.prems by simp
  ultimately show ?case using Suc.IH by simp
qed

lemma process_poly_kept_between:
  fixes st :: "('a, ('s, 'a, 'b) effect) audio_state"
  assumes "0 \<le> m" and "m \<le> n"
    and "\<forall>k < length out. \<forall>j. m \<le> j \<and> j < n \<longrightarrow> a \<noteq> out ! k + j"
  shows "memory (process_poly call current_tick inp out n st) a
           = memory (process_poly call current_tick inp out m st) a"
proof -
  from assms(2) have n: "n = m + int (nat (n - m))" by simp
  have "\<forall>k < length out. \<forall>j. m \<le> j \<and> j < m + int (nat (n - m)) \<longrightarrow> a \<noteq> out ! k + j"
    using assms(3) n by simp
  from process_poly_kept [OF assms(1) this, of call current_tick inp st] n
  show ?thesis by simp
qed

lemma process_poly_events_grow:
  fixes st :: "('a, ('s, 'a, 'b) effect) audio_state"
  assumes "0 \<le> m"
  shows "\<exists>later. events (process_poly call current_tick inp out (m + int d) st)
           = events (process_poly call current_tick inp out m st) @ later"
proof (induction d)
  case 0
  show ?case by simp
next
  case (Suc d)
  have step: "process_poly call current_tick inp out (m + int (Suc d)) st
      = poly_frame call current_tick inp out (m + int d)
          (process_poly call current_tick inp out (m + int d) st)"
    using process_poly_step [of "m + int d" call current_tick inp out st] assms
    by (simp add: algebra_simps)
  from poly_frame_events_grow [of call current_tick inp out "m + int d"
      "process_poly call current_tick inp out (m + int d) st"] Suc.IH
  show ?case unfolding step by auto
qed

text \<open>
  C3. The poly \<open>process\<close> over \<open>n\<close> frames, at each frame \<open>0 \<le> i < n\<close>; \<open>before\<close> and
  \<open>after\<close> are the states that \<open>process\<close> has reached after \<open>i\<close> and after \<open>i + 1\<close>
  frames. Input channel \<open>k\<close> at frame \<open>i\<close> is copied to the \<open>k\<close>-th input field with
  a sample, counted in declaration order as the classifier's index map does; sample
  fields beyond the number of channels and fields without a sample are left as they
  are. The processing operation is then invoked on the effect with these inputs, once
  (the frame logs a single \<open>Call\<close>, the whole run \<open>n\<close> of them, and the log of the frame
  is part of the log of the run). Then the \<open>k\<close>-th output field with a sample is written
  to output channel \<open>k\<close> at frame \<open>i\<close>, for the channels that have such a field: one
  store per such channel, every other address keeps its content, and when these
  channels have different addresses each holds the sample of its field. When the output
  spans are input spans or share no sample with them and with each other, the sample
  that the field receives is the one the host supplied in \<open>in[k][i]\<close>, and the sample
  written to \<open>out[k][i]\<close> is still there when \<open>process\<close> returns.
\<close>

theorem process_poly_protocol:
  fixes st :: "('a, ('s, 'a, 'b) effect) audio_state"
  assumes "0 \<le> i" and "i < n"
  shows "\<exists>before after ins'.
     before = process_poly call current_tick inp out i st
     \<and> after = process_poly call current_tick inp out (i + 1) st
     \<and> length ins' = length (ins (container before))
     \<and> (\<forall>k < size_n (ins (container before)) generic_audio_sample_port.
           ins' ! nat (index_map (ins (container before)) generic_audio_sample_port ! k)
             = (if k < length inp then Audio_sample (memory before (inp ! k + i))
                else ins (container before)
                       ! nat (index_map (ins (container before)) generic_audio_sample_port ! k)))
     \<and> (\<forall>p < length (ins (container before)).
           \<not> generic_audio_sample_port (ins (container before) ! p)
           \<longrightarrow> ins' ! p = ins (container before) ! p)
     \<and> container after
         = call (map_option (\<lambda>f. f ((container before)\<lparr>ins := ins'\<rparr>)) current_tick)
             ((container before)\<lparr>ins := ins'\<rparr>)
     \<and> events after
         = events before
           @ map (\<lambda>k. Load k i)
               [0 ..< min (length inp)
                        (size_n (ins (container before)) generic_audio_sample_port)]
           @ [Call 0]
           @ map (\<lambda>k. Store k i)
               [0 ..< min (length out)
                        (size_n (outs (container after)) generic_audio_sample_port)]
     \<and> (\<exists>later. events (process_poly call current_tick inp out n st) = events after @ later)
     \<and> (\<forall>a. (\<forall>k < min (length out)
                        (size_n (outs (container after)) generic_audio_sample_port).
                 a \<noteq> out ! k + i)
              \<longrightarrow> memory after a = memory before a)
     \<and> ((\<forall>k k'. k < k'
             \<and> k' < min (length out) (size_n (outs (container after)) generic_audio_sample_port)
             \<longrightarrow> out ! k \<noteq> out ! k')
          \<longrightarrow> (\<forall>k < min (length out)
                         (size_n (outs (container after)) generic_audio_sample_port).
                 Audio_sample (memory after (out ! k + i))
                   = outs (container after)
                       ! nat (index_map (outs (container after)) generic_audio_sample_port ! k)))
     \<and> (reused_buffers inp out n
          \<longrightarrow> (\<forall>k < length inp. memory before (inp ! k + i) = memory st (inp ! k + i))
            \<and> (\<forall>k < min (length out)
                         (size_n (outs (container after)) generic_audio_sample_port).
                 Audio_sample (memory (process_poly call current_tick inp out n st)
                                 (out ! k + i))
                   = outs (container after)
                       ! nat (index_map (outs (container after)) generic_audio_sample_port ! k)))
     \<and> length (filter (\<lambda>e. e = Call 0)
                  (events (process_poly call current_tick inp out n st)))
         = length (filter (\<lambda>e. e = Call 0) (events st)) + nat n"
proof -
  let ?run = "\<lambda>m. process_poly call current_tick inp out m st"
  let ?before = "?run i"
  let ?after = "?run (i + 1)"
  let ?M = "min (length out) (size_n (outs (container ?after)) generic_audio_sample_port)"
  have step: "?after = poly_frame call current_tick inp out i ?before"
    using assms(1) by (rule process_poly_step)
  from poly_frame_step [of ?before inp i call current_tick out]
  obtain ins' implementation' where
    A: "length ins' = length (ins (container ?before))"
    and B: "\<forall>k < size_n (ins (container ?before)) generic_audio_sample_port.
           ins' ! nat (index_map (ins (container ?before)) generic_audio_sample_port ! k)
             = (if k < length inp then Audio_sample (memory ?before (inp ! k + i))
                else ins (container ?before)
                       ! nat (index_map (ins (container ?before)) generic_audio_sample_port ! k))"
    and C: "\<forall>p < length (ins (container ?before)).
           \<not> generic_audio_sample_port (ins (container ?before) ! p)
           \<longrightarrow> ins' ! p = ins (container ?before) ! p"
    and D: "implementation'
         = call (map_option (\<lambda>f. f ((container ?before)\<lparr>ins := ins'\<rparr>)) current_tick)
             ((container ?before)\<lparr>ins := ins'\<rparr>)"
    and E: "container (poly_frame call current_tick inp out i ?before) = implementation'"
    and F: "events (poly_frame call current_tick inp out i ?before)
         = events ?before
           @ map (\<lambda>k. Load k i)
               [0 ..< min (length inp)
                        (size_n (ins (container ?before)) generic_audio_sample_port)]
           @ [Call 0]
           @ map (\<lambda>k. Store k i)
               [0 ..< min (length out) (size_n (outs implementation') generic_audio_sample_port)]"
    and G: "\<forall>a. (\<forall>k < min (length out) (size_n (outs implementation') generic_audio_sample_port).
                 a \<noteq> out ! k + i)
              \<longrightarrow> memory (poly_frame call current_tick inp out i ?before) a = memory ?before a"
    and H: "(\<forall>k k'. k < k'
             \<and> k' < min (length out) (size_n (outs implementation') generic_audio_sample_port)
             \<longrightarrow> out ! k \<noteq> out ! k')
          \<longrightarrow> (\<forall>k < min (length out) (size_n (outs implementation') generic_audio_sample_port).
                 Audio_sample (memory (poly_frame call current_tick inp out i ?before)
                                 (out ! k + i))
                   = outs implementation'
                       ! nat (index_map (outs implementation') generic_audio_sample_port ! k))"
    by blast
  have impl: "implementation' = container ?after"
    using E step by simp
  have D': "container ?after
         = call (map_option (\<lambda>f. f ((container ?before)\<lparr>ins := ins'\<rparr>)) current_tick)
             ((container ?before)\<lparr>ins := ins'\<rparr>)"
    using D impl by simp
  have F': "events ?after
         = events ?before
           @ map (\<lambda>k. Load k i)
               [0 ..< min (length inp)
                        (size_n (ins (container ?before)) generic_audio_sample_port)]
           @ [Call 0] @ map (\<lambda>k. Store k i) [0 ..< ?M]"
    using F unfolding impl step [symmetric] .
  have G': "\<forall>a. (\<forall>k < ?M. a \<noteq> out ! k + i) \<longrightarrow> memory ?after a = memory ?before a"
    using G unfolding impl step [symmetric] .
  have H': "(\<forall>k k'. k < k' \<and> k' < ?M \<longrightarrow> out ! k \<noteq> out ! k')
          \<longrightarrow> (\<forall>k < ?M. Audio_sample (memory ?after (out ! k + i))
                   = outs (container ?after)
                       ! nat (index_map (outs (container ?after)) generic_audio_sample_port ! k))"
    using H unfolding impl step [symmetric] .
  have L: "\<exists>later. events (?run n) = events ?after @ later"
  proof -
    from assms have "n = (i + 1) + int (nat (n - (i + 1)))" by simp
    moreover have "0 \<le> i + 1" using assms(1) by simp
    ultimately show ?thesis
      using process_poly_events_grow [of "i + 1" call current_tick inp out "nat (n - (i + 1))" st]
      by simp
  qed
  have R: "reused_buffers inp out n
          \<longrightarrow> (\<forall>k < length inp. memory ?before (inp ! k + i) = memory st (inp ! k + i))
            \<and> (\<forall>k < ?M. Audio_sample (memory (?run n) (out ! k + i))
                   = outs (container ?after)
                       ! nat (index_map (outs (container ?after)) generic_audio_sample_port ! k))"
  proof (intro impI conjI allI)
    fix k assume re: "reused_buffers inp out n" and k: "k < length inp"
    have "\<forall>k' < length out. \<forall>j. 0 \<le> j \<and> j < i \<longrightarrow> inp ! k + i \<noteq> out ! k' + j"
    proof (intro allI impI)
      fix k' j assume k': "k' < length out" and j: "0 \<le> j \<and> j < i"
      from re k k' have "out ! k' = inp ! k \<or> separate n (out ! k') (inp ! k)"
        by (simp add: reused_buffers_def)
      then have "out ! k' + j \<noteq> inp ! k + i"
      proof
        assume "out ! k' = inp ! k" with j show ?thesis by simp
      next
        assume "separate n (out ! k') (inp ! k)"
        then show ?thesis using j assms by (intro separate_apart) simp_all
      qed
      then show "inp ! k + i \<noteq> out ! k' + j" by simp
    qed
    from process_poly_kept_between [OF _ assms(1) this, of call current_tick inp st]
    show "memory ?before (inp ! k + i) = memory st (inp ! k + i)"
      by (simp add: process_poly_none)
  next
    fix k assume re: "reused_buffers inp out n" and k: "k < ?M"
    then have kl: "k < length out" by simp
    have apart: "\<And>c c' j j'. c < length out \<Longrightarrow> c' < length out \<Longrightarrow> c \<noteq> c'
        \<Longrightarrow> 0 \<le> j \<Longrightarrow> j < n \<Longrightarrow> 0 \<le> j' \<Longrightarrow> j' < n \<Longrightarrow> out ! c + j \<noteq> out ! c' + j'"
    proof -
      fix c c' j j'
      assume a: "c < length out" "c' < length out" "c \<noteq> c'"
        and b: "0 \<le> j" "j < n" "0 \<le> j'" "j' < n"
      from re a have "separate n (out ! c) (out ! c')"
        by (simp add: reused_buffers_def)
      then show "out ! c + j \<noteq> out ! c' + j'" using b by (rule separate_apart)
    qed
    have dist: "\<forall>k k'. k < k' \<and> k' < ?M \<longrightarrow> out ! k \<noteq> out ! k'"
    proof (intro allI impI)
      fix c c' assume "c < c' \<and> c' < ?M"
      then have "c < length out" "c' < length out" "c \<noteq> c'" by simp_all
      from apart [OF this assms assms] show "out ! c \<noteq> out ! c'" by simp
    qed
    with H' k have now: "Audio_sample (memory ?after (out ! k + i))
        = outs (container ?after)
            ! nat (index_map (outs (container ?after)) generic_audio_sample_port ! k)"
      by blast
    have "\<forall>k' < length out. \<forall>j. i + 1 \<le> j \<and> j < n \<longrightarrow> out ! k + i \<noteq> out ! k' + j"
    proof (intro allI impI)
      fix k' j assume k': "k' < length out" and j: "i + 1 \<le> j \<and> j < n"
      show "out ! k + i \<noteq> out ! k' + j"
      proof (cases "k' = k")
        case True
        with j show ?thesis by simp
      next
        case False
        then have "k \<noteq> k'" by simp
        with kl k' show ?thesis using assms j by (intro apart) simp_all
      qed
    qed
    moreover have "0 \<le> i + 1" "i + 1 \<le> n" using assms by simp_all
    ultimately have "memory (?run n) (out ! k + i) = memory ?after (out ! k + i)"
      by (intro process_poly_kept_between) simp_all
    with now show "Audio_sample (memory (?run n) (out ! k + i))
        = outs (container ?after)
            ! nat (index_map (outs (container ?after)) generic_audio_sample_port ! k)"
      by simp
  qed
  have N: "length (filter (\<lambda>e. e = Call 0) (events (?run n)))
         = length (filter (\<lambda>e. e = Call 0) (events st)) + nat n"
    by (rule process_poly_calls)
  have X: "?before = ?before" and Y: "?after = ?after" by simp_all
  show ?thesis
    by (intro exI [of _ ?before] exI [of _ ?after] exI [of _ ins'] conjI)
      (rule X Y A B C D' F' L G' H' R N)+
qed

theorem process_poly_protocol_witness:
  "container (process_poly example_poly_operation no_current_tick [0, 2, 4, 6] [10, 12, 14] 2
                example_poly_state)
     = \<lparr>fx = 2,
        ins = [Audio_sample 2, Other_port True, Audio_sample 4, Audio_sample 6],
        outs = [Audio_sample 6, Other_port False, Audio_sample 6]\<rparr>
   \<and> events (process_poly example_poly_operation no_current_tick [0, 2, 4, 6] [10, 12, 14] 2
               example_poly_state)
     = [Load 0 0, Load 1 0, Load 2 0, Call 0, Store 0 0, Store 1 0,
        Load 0 1, Load 1 1, Load 2 1, Call 0, Store 0 1, Store 1 1]
   \<and> memory (process_poly example_poly_operation no_current_tick [0, 2, 4, 6] [10, 12, 14] 2
               example_poly_state) 10 = 4
   \<and> memory (process_poly example_poly_operation no_current_tick [0, 2, 4, 6] [10, 12, 14] 2
               example_poly_state) 12 = 5
   \<and> memory (process_poly example_poly_operation no_current_tick [0, 2, 4, 6] [10, 12, 14] 2
               example_poly_state) 11 = 6
   \<and> memory (process_poly example_poly_operation no_current_tick [0, 2, 4, 6] [10, 12, 14] 2
               example_poly_state) 13 = 6
   \<and> length (filter (\<lambda>e. e = Call 0)
        (events (process_poly example_poly_operation no_current_tick [0, 2, 4, 6] [10, 12, 14] 2
                   example_poly_state))) = 2"
proof -
  let ?run = "\<lambda>m. process_poly example_poly_operation no_current_tick [0, 2, 4, 6]
                  [10, 12, 14] m example_poly_state"
  let ?c1 = "\<lparr>fx = 1,
        ins = [Audio_sample 1, Other_port True, Audio_sample 3, Audio_sample 5],
        outs = [Audio_sample 4, Other_port False, Audio_sample 5]\<rparr> :: (nat, real, bool) effect"
  let ?c2 = "\<lparr>fx = 2,
        ins = [Audio_sample 2, Other_port True, Audio_sample 4, Audio_sample 6],
        outs = [Audio_sample 6, Other_port False, Audio_sample 6]\<rparr> :: (nat, real, bool) effect"
  have r0: "?run 0 = example_poly_state" by (simp add: process_poly_none)
  have r1: "?run 1 = poly_frame example_poly_operation no_current_tick [0, 2, 4, 6]
      [10, 12, 14] 0 example_poly_state"
    using process_poly_step [of 0 example_poly_operation no_current_tick "[0, 2, 4, 6]"
        "[10, 12, 14]" example_poly_state] r0 by simp
  have r2: "?run 2 = poly_frame example_poly_operation no_current_tick [0, 2, 4, 6]
      [10, 12, 14] 1 (?run 1)"
    using process_poly_step [of 1 example_poly_operation no_current_tick "[0, 2, 4, 6]"
        "[10, 12, 14]" example_poly_state] by simp
  have c1: "container (?run 1) = ?c1"
    unfolding r1
    by (simp add: poly_frame_unfold Let_def example_poly_state_def example_poly_operation_def
        example_memory_def no_current_tick_def samples_def)
  have m1: "memory (?run 1) 1 = 2" "memory (?run 1) 3 = 4" "memory (?run 1) 5 = 6"
    unfolding r1
    by (simp_all add: poly_frame_unfold Let_def example_poly_state_def
        example_poly_operation_def example_memory_def no_current_tick_def samples_def)
  have nt: "\<And>f. map_option f no_current_tick = None"
    by (simp add: no_current_tick_def)
  have c2: "container (?run 2) = ?c2"
    unfolding r2
    by (simp add: poly_frame_unfold Let_def c1 m1 example_poly_operation_def nt samples_def)
  have sz: "size_n (ins (container example_poly_state)) generic_audio_sample_port = 3"
    "size_n (ins ?c1) generic_audio_sample_port = 3"
    "size_n (outs ?c1) generic_audio_sample_port = 2"
    "size_n (outs ?c2) generic_audio_sample_port = 2"
    and im: "index_map (outs ?c1) generic_audio_sample_port = [0, 2]"
    "index_map (outs ?c2) generic_audio_sample_port = [0, 2]"
    by (simp_all add: example_poly_state_def size_n_def index_map_def indices_n_def indices_def
        matches_predicate_i_def upt_rec)
  have re: "reused_buffers [0, 2, 4, 6] [10, 12, 14] 2"
    by (simp add: reused_buffers_def separate_def All_less_Suc numeral_3_eq_3
        eval_nat_numeral)
  have ev0: "events example_poly_state = []" by (simp add: example_poly_state_def)
  from process_poly_protocol [of 0 2 example_poly_operation no_current_tick "[0, 2, 4, 6]"
      "[10, 12, 14]" example_poly_state]
  have e1: "events (?run (0 + 1))
         = events (?run 0)
           @ map (\<lambda>k. Load k 0)
               [0 ..< min (length [0, 2, 4, 6 :: int])
                        (size_n (ins (container (?run 0))) generic_audio_sample_port)]
           @ [Call 0]
           @ map (\<lambda>k. Store k 0)
               [0 ..< min (length [10, 12, 14 :: int])
                        (size_n (outs (container (?run (0 + 1)))) generic_audio_sample_port)]"
    and f1: "reused_buffers [0, 2, 4, 6] [10, 12, 14] 2
       \<longrightarrow> (\<forall>k < min (length [10, 12, 14 :: int])
                     (size_n (outs (container (?run (0 + 1)))) generic_audio_sample_port).
             Audio_sample (memory (?run 2) ([10, 12, 14] ! k + 0))
               = outs (container (?run (0 + 1)))
                   ! nat (index_map (outs (container (?run (0 + 1))))
                            generic_audio_sample_port ! k))"
    by auto
  from process_poly_protocol [of 1 2 example_poly_operation no_current_tick "[0, 2, 4, 6]"
      "[10, 12, 14]" example_poly_state]
  have e2: "events (?run (1 + 1))
         = events (?run 1)
           @ map (\<lambda>k. Load k 1)
               [0 ..< min (length [0, 2, 4, 6 :: int])
                        (size_n (ins (container (?run 1))) generic_audio_sample_port)]
           @ [Call 0]
           @ map (\<lambda>k. Store k 1)
               [0 ..< min (length [10, 12, 14 :: int])
                        (size_n (outs (container (?run (1 + 1)))) generic_audio_sample_port)]"
    and f2: "reused_buffers [0, 2, 4, 6] [10, 12, 14] 2
       \<longrightarrow> (\<forall>k < min (length [10, 12, 14 :: int])
                     (size_n (outs (container (?run (1 + 1)))) generic_audio_sample_port).
             Audio_sample (memory (?run 2) ([10, 12, 14] ! k + 1))
               = outs (container (?run (1 + 1)))
                   ! nat (index_map (outs (container (?run (1 + 1))))
                            generic_audio_sample_port ! k))"
    and n: "length (filter (\<lambda>e. e = Call 0) (events (?run 2)))
         = length (filter (\<lambda>e. e = Call 0) (events example_poly_state)) + nat 2"
    by auto
  have one: "(0::int) + 1 = 1" and two: "(1::int) + 1 = 2" by simp_all
  have ev1: "events (?run 1) = [Load 0 0, Load 1 0, Load 2 0, Call 0, Store 0 0, Store 1 0]"
    using e1 unfolding one r0 c1 sz ev0 by (simp add: upt_rec)
  have ev2: "events (?run 2)
      = [Load 0 0, Load 1 0, Load 2 0, Call 0, Store 0 0, Store 1 0,
         Load 0 1, Load 1 1, Load 2 1, Call 0, Store 0 1, Store 1 1]"
    using e2 unfolding two c1 c2 sz ev1 by (simp add: upt_rec)
  have "\<forall>k < min (length [10, 12, 14 :: int]) 2.
      Audio_sample (memory (?run 2) ([10, 12, 14] ! k + 0)) = outs ?c1 ! nat ([0, 2] ! k)"
    using f1 re unfolding one c1 sz im by blast
  then have "Audio_sample (memory (?run 2) ([10, 12, 14] ! 0 + 0)) = outs ?c1 ! nat ([0, 2] ! 0)"
    and "Audio_sample (memory (?run 2) ([10, 12, 14] ! 1 + 0)) = outs ?c1 ! nat ([0, 2] ! 1)"
    by (simp_all add: All_less_Suc numeral_2_eq_2)
  then have a: "memory (?run 2) 10 = 4" "memory (?run 2) 12 = 5" by simp_all
  have "\<forall>k < min (length [10, 12, 14 :: int]) 2.
      Audio_sample (memory (?run 2) ([10, 12, 14] ! k + 1)) = outs ?c2 ! nat ([0, 2] ! k)"
    using f2 re unfolding two c2 sz im by blast
  then have "Audio_sample (memory (?run 2) ([10, 12, 14] ! 0 + 1)) = outs ?c2 ! nat ([0, 2] ! 0)"
    and "Audio_sample (memory (?run 2) ([10, 12, 14] ! 1 + 1)) = outs ?c2 ! nat ([0, 2] ! 1)"
    by (simp_all add: All_less_Suc numeral_2_eq_2)
  then have b: "memory (?run 2) 11 = 6" "memory (?run 2) 13 = 6" by simp_all
  have "length (filter (\<lambda>e. e = Call 0) (events (?run 2))) = 2"
    using n by (simp add: ev0)
  with c2 ev2 a b show ?thesis by simp
qed

end
